theory Spec2Isabelle
  imports Complex_Main "HOL-Library.Word" "HOL-Library.Char_ord" "HOL-Library.List_Lexorder"
begin

section \<open>The C and C++ library functions the parser calls\<close>

text \<open>
  A \<open>std::string\<close> is a list of bytes. \<open>std::isspace\<close> and \<open>std::isdigit\<close> are taken
  in the "C" locale: the six white-space characters (space, \<open>\t\<close>, \<open>\n\<close>, \<open>\v\<close>, \<open>\f\<close>,
  \<open>\r\<close>) and the ten decimal digits.
\<close>

definition isspace :: "char \<Rightarrow> bool" where
  "isspace c = (c = CHR '' '' \<or> c = CHR 0x09 \<or> c = CHR 0x0A \<or> c = CHR 0x0B
                \<or> c = CHR 0x0C \<or> c = CHR 0x0D)"

definition isdigit :: "char \<Rightarrow> bool" where
  "isdigit c = (c \<in> set ''0123456789'')"

definition digit_value :: "char \<Rightarrow> nat" where
  "digit_value c = of_char c - 48"

definition digit_char :: "nat \<Rightarrow> char" where
  "digit_char n = ''0123456789'' ! n"

text \<open>The decimal digits of a natural number, most significant first.\<close>

fun digits :: "nat \<Rightarrow> string" where
  "digits n = (if n < 10 then [digit_char n] else digits (n div 10) @ [digit_char (n mod 10)])"

declare digits.simps [simp del]

definition decimal_value :: "string \<Rightarrow> nat" where
  "decimal_value ds = foldl (\<lambda>a c. 10 * a + digit_value c) 0 ds"

text \<open>
  \<open>content[pos]\<close> on a \<open>const std::string\<close>: the character at \<open>pos\<close>, and the
  terminating \<open>'\0'\<close> at \<open>pos = size()\<close>. \<open>content.substr(pos, n)\<close> is only called
  with \<open>pos \<le> size()\<close>.
\<close>

definition char_at :: "string \<Rightarrow> nat \<Rightarrow> char" where
  "char_at content pos = (if pos < length content then content ! pos else CHR 0x00)"

definition substr :: "string \<Rightarrow> nat \<Rightarrow> nat \<Rightarrow> string" where
  "substr content pos n = take n (drop pos content)"

text \<open>
  \<open>int\<close> is a 32-bit two's complement integer. \<open>std::to_string(int)\<close> prints it in
  decimal. \<open>std::stoi\<close> skips leading white space, reads an optional sign and the longest
  run of digits, and throws \<open>std::invalid_argument\<close> when there is no digit and
  \<open>std::out_of_range\<close> when the value does not fit an \<open>int\<close>; both exceptions are
  \<open>None\<close> here, since every caller catches them together.
\<close>

type_synonym int32 = "32 word"

definition to_string_int :: "int32 \<Rightarrow> string" where
  "to_string_int w =
     (let i = sint w in if i < 0 then CHR ''-'' # digits (nat (- i)) else digits (nat i))"

definition stoi :: "string \<Rightarrow> int32 option" where
  "stoi s =
     (let s1 = dropWhile isspace s;
          neg = (s1 \<noteq> [] \<and> hd s1 = CHR ''-'');
          s2 = (if s1 \<noteq> [] \<and> (hd s1 = CHR ''-'' \<or> hd s1 = CHR ''+'') then tl s1 else s1);
          ds = takeWhile isdigit s2;
          n = (if neg then - int (decimal_value ds) else int (decimal_value ds))
      in if ds = [] then None
         else if n < - (2 ^ 31) \<or> 2 ^ 31 - 1 < n then None
         else Some (word_of_int n))"

text \<open>
  The functions on \<open>double\<close> that the code calls belong to the platform, not to the
  repository, and rounding is theirs to define. They are a parameter of the model: a
  record over an arbitrary type \<open>'d\<close> of floating-point values.
  \<^item> \<open>stod\<close>: \<open>std::stod\<close>, \<open>None\<close> when it throws;
  \<^item> \<open>to_string_double\<close>: \<open>std::to_string(double)\<close>;
  \<^item> \<open>double_to_int\<close>: \<open>static_cast<int>(double)\<close>;
  \<^item> \<open>int_to_double\<close>: \<open>static_cast<double>(int)\<close>;
  \<^item> \<open>is_zero\<close>: comparison with \<open>0.0\<close>.
\<close>

record 'd float_ops =
  stod :: "string \<Rightarrow> 'd option"
  to_string_double :: "'d \<Rightarrow> string"
  double_to_int :: "'d \<Rightarrow> int32"
  int_to_double :: "int32 \<Rightarrow> 'd"
  is_zero :: "'d \<Rightarrow> bool"

section \<open>JSONValue\<close>

text \<open>
  The class \<open>JSONValue\<close> stores a tag \<open>type_\<close> and one field for every payload. Its
  constructors set the tag and the matching payload only, and \<open>set\<close> and \<open>push_back\<close>
  clear every other payload when they change the tag, so a value is determined by its
  tag and the payload of that tag: one constructor for each \<open>Type\<close>. The
  \<open>std::map\<close> of an object is a list of members in increasing key order (the order in
  which the map is iterated), the \<open>std::vector\<close> of an array is a list.
\<close>

datatype Type = TString | TNumber | TInteger | TBoolean | TNull | TObject | TArray

datatype 'd JSONValue =
    Null
  | Boolean bool
  | Integer int32
  | Number 'd
  | String string
  | Array "'d JSONValue list"
  | Object "(string \<times> 'd JSONValue) list"

fun get_type :: "'d JSONValue \<Rightarrow> Type" where
  "get_type Null = TNull"
| "get_type (Boolean b) = TBoolean"
| "get_type (Integer i) = TInteger"
| "get_type (Number d) = TNumber"
| "get_type (String s) = TString"
| "get_type (Array xs) = TArray"
| "get_type (Object m) = TObject"

text \<open>\<open>object_values_[key] = value\<close> on the ordered map.\<close>

fun map_assign :: "string \<Rightarrow> 'v \<Rightarrow> (string \<times> 'v) list \<Rightarrow> (string \<times> 'v) list" where
  "map_assign k v [] = [(k, v)]"
| "map_assign k v ((k', v') # m) =
     (if k = k' then (k, v) # m
      else if k < k' then (k, v) # (k', v') # m
      else (k', v') # map_assign k v m)"

fun as_string :: "'d float_ops \<Rightarrow> 'd JSONValue \<Rightarrow> string" where
  "as_string fp (String s) = s"
| "as_string fp (Integer i) = to_string_int i"
| "as_string fp (Number d) = to_string_double fp d"
| "as_string fp (Boolean b) = (if b then ''true'' else ''false'')"
| "as_string fp Null = ''null''"
| "as_string fp _ = ''''"

fun as_int :: "'d float_ops \<Rightarrow> 'd JSONValue \<Rightarrow> int32" where
  "as_int fp (String s) = (case stoi s of Some i \<Rightarrow> i | None \<Rightarrow> 0)"
| "as_int fp (Integer i) = i"
| "as_int fp (Number d) = double_to_int fp d"
| "as_int fp (Boolean b) = (if b then 1 else 0)"
| "as_int fp _ = 0"

fun as_double :: "'d float_ops \<Rightarrow> 'd JSONValue \<Rightarrow> 'd" where
  "as_double fp (String s) = (case stod fp s of Some d \<Rightarrow> d | None \<Rightarrow> int_to_double fp 0)"
| "as_double fp (Integer i) = int_to_double fp i"
| "as_double fp (Number d) = d"
| "as_double fp (Boolean b) = (if b then int_to_double fp 1 else int_to_double fp 0)"
| "as_double fp _ = int_to_double fp 0"

fun as_bool :: "'d float_ops \<Rightarrow> 'd JSONValue \<Rightarrow> bool" where
  "as_bool fp (String s) = (s \<noteq> [] \<and> s \<noteq> ''false'' \<and> s \<noteq> ''0'')"
| "as_bool fp (Integer i) = (i \<noteq> 0)"
| "as_bool fp (Number d) = (\<not> is_zero fp d)"
| "as_bool fp (Boolean b) = b"
| "as_bool fp _ = False"

fun set_json :: "string \<Rightarrow> 'd JSONValue \<Rightarrow> 'd JSONValue \<Rightarrow> 'd JSONValue" where
  "set_json key v (Object m) = Object (map_assign key v m)"
| "set_json key v _ = Object (map_assign key v [])"

fun get :: "'d JSONValue \<Rightarrow> string \<Rightarrow> 'd JSONValue" where
  "get (Object m) key = (case map_of m key of Some v \<Rightarrow> v | None \<Rightarrow> Null)"
| "get _ key = Null"

fun has_key :: "'d JSONValue \<Rightarrow> string \<Rightarrow> bool" where
  "has_key (Object m) key = (map_of m key \<noteq> None)"
| "has_key _ key = False"

fun get_keys_value :: "'d JSONValue \<Rightarrow> string list" where
  "get_keys_value (Object m) = map fst m"
| "get_keys_value _ = []"

fun push_back :: "'d JSONValue \<Rightarrow> 'd JSONValue \<Rightarrow> 'd JSONValue" where
  "push_back v (Array xs) = Array (xs @ [v])"
| "push_back v _ = Array [v]"

fun at_json :: "'d JSONValue \<Rightarrow> nat \<Rightarrow> 'd JSONValue" where
  "at_json (Array xs) index = (if index \<ge> length xs then Null else xs ! index)"
| "at_json _ index = Null"

fun size_json :: "'d JSONValue \<Rightarrow> nat" where
  "size_json (Array xs) = length xs"
| "size_json (Object m) = length m"
| "size_json _ = 0"


section \<open>JSONResult and the path accessor\<close>

record 'd JSONResult =
  success :: bool
  error_message :: string
  root :: "'d JSONValue"

text \<open>
  A default-constructed \<open>JSONResult\<close>: \<open>success = false\<close>, an empty message and a
  default-constructed (Null) root.
\<close>

definition JSONResult_default :: "'d JSONResult" where
  "JSONResult_default = \<lparr>success = False, error_message = [], root = Null\<rparr>"

text \<open>
  \<open>std::getline(path_stream, component, '.')\<close> on the characters the stream still
  holds: at the end of the stream nothing is extracted and the call fails (\<open>None\<close>);
  otherwise the characters before the next \<open>'.'\<close> are the component, and they and the
  delimiter are consumed.
\<close>

definition getline :: "string \<Rightarrow> (string \<times> string) option" where
  "getline stream =
     (if stream = [] then None
      else (let component = takeWhile (\<lambda>c. c \<noteq> CHR ''.'') stream
            in Some (component, drop (length component + 1) stream)))"

lemma getline_shorter: "getline stream = Some (component, stream') \<Longrightarrow> length stream' < length stream"
  by (auto simp: getline_def Let_def split: if_splits)

text \<open>The \<open>while\<close> loop of \<open>get_value\<close>, on the current value and the rest of the stream.\<close>

function get_value_loop :: "'d JSONValue \<Rightarrow> string \<Rightarrow> 'd JSONValue" where
  "get_value_loop current path_stream =
     (case getline path_stream of
        None \<Rightarrow> current
      | Some (component, path_stream) \<Rightarrow>
          if get_type current \<noteq> TObject then Null
          else (let current = get current component in
                if get_type current = TNull then Null
                else get_value_loop current path_stream))"
  by pat_completeness auto
termination
  by (relation "measure (\<lambda>(current, path_stream). length path_stream)")
     (auto dest: getline_shorter)

declare get_value_loop.simps [simp del]

definition get_value :: "'d JSONResult \<Rightarrow> string \<Rightarrow> 'd JSONValue" where
  "get_value r path = (if path = [] then root r else get_value_loop (root r) path)"

definition get_string :: "'d float_ops \<Rightarrow> 'd JSONResult \<Rightarrow> string \<Rightarrow> string \<Rightarrow> string" where
  "get_string fp r path default_value =
     (let v = get_value r path in
      if get_type v = TNull then default_value else as_string fp v)"

definition get_int :: "'d float_ops \<Rightarrow> 'd JSONResult \<Rightarrow> string \<Rightarrow> int32 \<Rightarrow> int32" where
  "get_int fp r path default_value =
     (let v = get_value r path in
      if get_type v = TNull then default_value else as_int fp v)"

definition get_double :: "'d float_ops \<Rightarrow> 'd JSONResult \<Rightarrow> string \<Rightarrow> 'd \<Rightarrow> 'd" where
  "get_double fp r path default_value =
     (let v = get_value r path in
      if get_type v = TNull then default_value else as_double fp v)"

definition get_bool :: "'d float_ops \<Rightarrow> 'd JSONResult \<Rightarrow> string \<Rightarrow> bool \<Rightarrow> bool" where
  "get_bool fp r path default_value =
     (let v = get_value r path in
      if get_type v = TNull then default_value else as_bool fp v)"

definition has_path :: "'d JSONResult \<Rightarrow> string \<Rightarrow> bool" where
  "has_path r path = (get_type (get_value r path) \<noteq> TNull)"

definition get_keys :: "'d JSONResult \<Rightarrow> string \<Rightarrow> string list" where
  "get_keys r path =
     (let v = get_value r path in
      if get_type v = TObject then get_keys_value v else [])"

section \<open>JSONParser: parsing\<close>

text \<open>
  Every \<open>throw std::runtime_error(msg)\<close> is a result \<open>Inl (runtime_error msg)\<close>; a
  parsing function that returns gives \<open>Inr\<close> of its value and of the cursor \<open>pos\<close>,
  which the C++ code updates through a reference.
\<close>

datatype exception = runtime_error string

fun what :: "exception \<Rightarrow> string" where
  "what (runtime_error msg) = msg"

function skip_whitespace :: "string \<Rightarrow> nat \<Rightarrow> nat" where
  "skip_whitespace content pos =
     (if pos < length content \<and> isspace (content ! pos)
      then skip_whitespace content (pos + 1) else pos)"
  by pat_completeness auto
termination
  by (relation "measure (\<lambda>(content, pos). length content - pos)") auto

declare skip_whitespace.simps [simp del]

function skip_digits :: "string \<Rightarrow> nat \<Rightarrow> nat" where
  "skip_digits content pos =
     (if pos < length content \<and> isdigit (content ! pos)
      then skip_digits content (pos + 1) else pos)"
  by pat_completeness auto
termination
  by (relation "measure (\<lambda>(content, pos). length content - pos)") auto

declare skip_digits.simps [simp del]

definition escape_char :: "char \<Rightarrow> char option" where
  "escape_char escape =
     (if escape = CHR 0x22 then Some (CHR 0x22)
      else if escape = CHR 0x5C then Some (CHR 0x5C)
      else if escape = CHR ''/'' then Some (CHR ''/'')
      else if escape = CHR ''b'' then Some (CHR 0x08)
      else if escape = CHR ''f'' then Some (CHR 0x0C)
      else if escape = CHR ''n'' then Some (CHR 0x0A)
      else if escape = CHR ''r'' then Some (CHR 0x0D)
      else if escape = CHR ''t'' then Some (CHR 0x09)
      else None)"

function parse_string_loop :: "string \<Rightarrow> nat \<Rightarrow> string \<Rightarrow> exception + (string \<times> nat)" where
  "parse_string_loop content pos result =
     (if pos < length content then
        (let c = content ! pos; pos = pos + 1 in
         if c = CHR 0x22 then Inr (result, pos)
         else if c = CHR 0x5C then
           (if pos \<ge> length content then Inl (runtime_error ''Unexpected end of input in string'')
            else
              (let escape = content ! pos; pos = pos + 1 in
               case escape_char escape of
                 Some e \<Rightarrow> parse_string_loop content pos (result @ [e])
               | None \<Rightarrow> Inl (runtime_error (''Invalid escape sequence: '' @ [CHR 0x5C, escape]))))
         else parse_string_loop content pos (result @ [c]))
      else Inl (runtime_error ''Unterminated string''))"
  by pat_completeness auto
termination
  by (relation "measure (\<lambda>(content, pos, result). length content - pos)") auto

declare parse_string_loop.simps [simp del]

definition parse_string :: "string \<Rightarrow> nat \<Rightarrow> exception + (string \<times> nat)" where
  "parse_string content pos =
     (if char_at content pos \<noteq> CHR 0x22
      then Inl (runtime_error (''Expected '' @ [CHR 0x27, CHR 0x22, CHR 0x27] @ '' at start of string''))
      else parse_string_loop content (pos + 1) [])"

definition parse_number :: "'d float_ops \<Rightarrow> string \<Rightarrow> nat \<Rightarrow> exception + ('d JSONValue \<times> nat)" where
  "parse_number fp content pos0 =
     (let start = pos0;
          pos = (if char_at content pos0 = CHR ''-'' then pos0 + 1 else pos0);
          pos = skip_digits content pos;
          pos = (if pos < length content \<and> content ! pos = CHR ''.''
                 then skip_digits content (pos + 1) else pos);
          pos = (if pos < length content \<and> (content ! pos = CHR ''e'' \<or> content ! pos = CHR ''E'')
                 then (let pos = pos + 1;
                           pos = (if pos < length content \<and>
                                     (content ! pos = CHR ''+'' \<or> content ! pos = CHR ''-'')
                                  then pos + 1 else pos)
                       in skip_digits content pos)
                 else pos);
          num_str = substr content start (pos - start)
      in if CHR ''.'' \<in> set num_str \<or> CHR ''e'' \<in> set num_str \<or> CHR ''E'' \<in> set num_str
         then (case stod fp num_str of
                 Some d \<Rightarrow> Inr (Number d, pos)
               | None \<Rightarrow> Inl (runtime_error (''Invalid number: '' @ num_str)))
         else (case stoi num_str of
                 Some i \<Rightarrow> Inr (Integer i, pos)
               | None \<Rightarrow> Inl (runtime_error (''Invalid number: '' @ num_str))))"

function parse_value :: "'d float_ops \<Rightarrow> string \<Rightarrow> nat \<Rightarrow> exception + ('d JSONValue \<times> nat)"
  and parse_object :: "'d float_ops \<Rightarrow> string \<Rightarrow> nat \<Rightarrow> exception + ('d JSONValue \<times> nat)"
  and parse_object_loop ::
    "'d float_ops \<Rightarrow> string \<Rightarrow> nat \<Rightarrow> 'd JSONValue \<Rightarrow> exception + ('d JSONValue \<times> nat)"
  and parse_array :: "'d float_ops \<Rightarrow> string \<Rightarrow> nat \<Rightarrow> exception + ('d JSONValue \<times> nat)"
  and parse_array_loop ::
    "'d float_ops \<Rightarrow> string \<Rightarrow> nat \<Rightarrow> 'd JSONValue \<Rightarrow> exception + ('d JSONValue \<times> nat)"
where
  "parse_value fp content pos0 =
     (let pos = skip_whitespace content pos0 in
      if pos \<ge> length content then Inl (runtime_error ''Unexpected end of input'')
      else
        (let c = content ! pos in
         if c = CHR ''{'' then parse_object fp content pos
         else if c = CHR ''['' then parse_array fp content pos
         else if c = CHR 0x22 then
           (case parse_string content pos of
              Inl e \<Rightarrow> Inl e
            | Inr (s, pos) \<Rightarrow> Inr (String s, pos))
         else if c = CHR ''t'' \<or> c = CHR ''f'' then
           (if substr content pos 4 = ''true'' then Inr (Boolean True, pos + 4)
            else if substr content pos 5 = ''false'' then Inr (Boolean False, pos + 5)
            else Inl (runtime_error ''Invalid boolean value''))
         else if c = CHR ''n'' then
           (if substr content pos 4 = ''null'' then Inr (Null, pos + 4)
            else Inl (runtime_error ''Invalid null value''))
         else if isdigit c \<or> c = CHR ''-'' then parse_number fp content pos
         else Inl (runtime_error (''Unexpected character: '' @ [c]))))"
| "parse_object fp content pos0 =
     (let obj = set_json '''' Null Null;
          pos = pos0 + 1;
          pos = skip_whitespace content pos in
      if pos < length content \<and> content ! pos = CHR ''}'' then Inr (obj, pos + 1)
      else parse_object_loop fp content pos obj)"
| "parse_object_loop fp content pos0 obj =
     (if pos0 < length content then
        (let pos = skip_whitespace content pos0 in
         if char_at content pos \<noteq> CHR 0x22
         then Inl (runtime_error ''Expected string key in object'')
         else
           (case parse_string content pos of
              Inl e \<Rightarrow> Inl e
            | Inr (key, pos) \<Rightarrow>
                (let pos = skip_whitespace content pos in
                 if pos \<ge> length content \<or> content ! pos \<noteq> CHR '':''
                 then Inl (runtime_error (''Expected '' @ [CHR 0x27] @ '':'' @ [CHR 0x27] @ '' after key''))
                 else
                   (let pos = pos + 1;
                        pos = skip_whitespace content pos in
                    case parse_value fp content pos of
                      Inl e \<Rightarrow> Inl e
                    | Inr (v, pos) \<Rightarrow>
                        (let obj = set_json key v obj;
                             pos = skip_whitespace content pos in
                         if pos \<ge> length content
                         then Inl (runtime_error ''Unexpected end of input in object'')
                         else if content ! pos = CHR ''}'' then Inr (obj, pos + 1)
                         else if content ! pos = CHR '','' then parse_object_loop fp content (pos + 1) obj
                         else Inl (runtime_error
                                (''Expected '' @ [CHR 0x27] @ '','' @ [CHR 0x27] @ '' or ''
                                 @ [CHR 0x27] @ ''}'' @ [CHR 0x27] @ '' in object'')))))))
      else Inr (obj, pos0))"
| "parse_array fp content pos0 =
     (let arr = Null;
          pos = pos0 + 1;
          pos = skip_whitespace content pos in
      if pos < length content \<and> content ! pos = CHR '']'' then Inr (arr, pos + 1)
      else parse_array_loop fp content pos arr)"
| "parse_array_loop fp content pos0 arr =
     (if pos0 < length content then
        (let pos = skip_whitespace content pos0 in
         case parse_value fp content pos of
           Inl e \<Rightarrow> Inl e
         | Inr (v, pos) \<Rightarrow>
             (let arr = push_back v arr;
                  pos = skip_whitespace content pos in
              if pos \<ge> length content
              then Inl (runtime_error ''Unexpected end of input in array'')
              else if content ! pos = CHR '']'' then Inr (arr, pos + 1)
              else if content ! pos = CHR '','' then parse_array_loop fp content (pos + 1) arr
              else Inl (runtime_error
                     (''Expected '' @ [CHR 0x27] @ '','' @ [CHR 0x27] @ '' or ''
                      @ [CHR 0x27] @ '']'' @ [CHR 0x27] @ '' in array''))))
      else Inr (arr, pos0))"
  by pat_completeness auto


lemma skip_whitespace_ge: "pos \<le> skip_whitespace content pos"
  by (induction content pos rule: skip_whitespace.induct)
     (subst skip_whitespace.simps, auto)

lemma skip_digits_ge: "pos \<le> skip_digits content pos"
  by (induction content pos rule: skip_digits.induct)
     (subst skip_digits.simps, auto)

lemma parse_string_loop_gt:
  "parse_string_loop content pos acc = Inr (s, pos') \<Longrightarrow> pos < pos'"
proof (induction content pos acc rule: parse_string_loop.induct)
  case (1 content pos result)
  note IH1 = "1.IH"(1)[OF _ refl refl _ _ _ refl refl]
  note IH2 = "1.IH"(2)[OF _ refl refl]
  from "1.prems" have len: "pos < length content"
    by (subst (asm) parse_string_loop.simps) (simp split: if_splits)
  show ?case
  proof (cases "content ! pos = CHR 0x22")
    case True
    with "1.prems" len show ?thesis
      by (subst (asm) parse_string_loop.simps) (simp add: Let_def)
  next
    case nq: False
    show ?thesis
    proof (cases "content ! pos = CHR 0x5C")
      case True
      with "1.prems" len nq obtain e where
        "\<not> length content \<le> pos + 1" "escape_char (content ! (pos + 1)) = Some e"
        "parse_string_loop content (pos + 1 + 1) (result @ [e]) = Inr (s, pos')"
        by (subst (asm) parse_string_loop.simps)
           (auto simp: Let_def split: if_splits option.splits)
      with IH1[OF len nq True] show ?thesis by fastforce
    next
      case False
      with "1.prems" len nq have
        "parse_string_loop content (pos + 1) (result @ [content ! pos]) = Inr (s, pos')"
        by (subst (asm) parse_string_loop.simps) (simp add: Let_def)
      with IH2[OF len nq False] show ?thesis by fastforce
    qed
  qed
qed

lemma parse_string_gt: "parse_string content pos = Inr (s, pos') \<Longrightarrow> pos < pos'"
  by (auto simp: parse_string_def split: if_splits dest: parse_string_loop_gt)

definition number_end :: "string \<Rightarrow> nat \<Rightarrow> nat" where
  "number_end content pos0 =
     (let pos = (if char_at content pos0 = CHR ''-'' then pos0 + 1 else pos0);
          pos = skip_digits content pos;
          pos = (if pos < length content \<and> content ! pos = CHR ''.''
                 then skip_digits content (pos + 1) else pos)
      in if pos < length content \<and> (content ! pos = CHR ''e'' \<or> content ! pos = CHR ''E'')
                 then (let pos = pos + 1;
                           pos = (if pos < length content \<and>
                                     (content ! pos = CHR ''+'' \<or> content ! pos = CHR ''-'')
                                  then pos + 1 else pos)
                       in skip_digits content pos)
                 else pos)"

lemma parse_number_eq:
  "parse_number fp content pos =
     (let pos' = number_end content pos; num_str = substr content pos (pos' - pos)
      in if CHR ''.'' \<in> set num_str \<or> CHR ''e'' \<in> set num_str \<or> CHR ''E'' \<in> set num_str
         then (case stod fp num_str of
                 Some d \<Rightarrow> Inr (Number d, pos')
               | None \<Rightarrow> Inl (runtime_error (''Invalid number: '' @ num_str)))
         else (case stoi num_str of
                 Some i \<Rightarrow> Inr (Integer i, pos')
               | None \<Rightarrow> Inl (runtime_error (''Invalid number: '' @ num_str))))"
  unfolding parse_number_def number_end_def Let_def by (rule refl)

lemma number_end_ge: "pos \<le> number_end content pos"
proof -
  define p1 where "p1 = (if char_at content pos = CHR ''-'' then pos + 1 else pos)"
  define p2 where "p2 = skip_digits content p1"
  define p3 where "p3 = (if p2 < length content \<and> content ! p2 = CHR ''.''
                 then skip_digits content (p2 + 1) else p2)"
  define p3a where "p3a = (if p3 + 1 < length content \<and>
                                     (content ! (p3 + 1) = CHR ''+'' \<or> content ! (p3 + 1) = CHR ''-'')
                                  then p3 + 1 + 1 else p3 + 1)"
  define p4 where "p4 = (if p3 < length content \<and> (content ! p3 = CHR ''e'' \<or> content ! p3 = CHR ''E'')
                 then skip_digits content p3a
                 else p3)"
  have "pos \<le> p1" by (simp add: p1_def)
  moreover have "p1 \<le> p2" by (simp add: p2_def skip_digits_ge)
  moreover have "p2 \<le> p3"
    using skip_digits_ge [of "p2 + 1" content] by (simp add: p3_def)
  moreover have "p3 \<le> p3a" by (simp add: p3a_def)
  moreover have "p3 \<le> p4"
    using skip_digits_ge [of p3a content] \<open>p3 \<le> p3a\<close> by (simp add: p4_def)
  moreover have "number_end content pos = p4"
    unfolding number_end_def Let_def p4_def p3a_def p3_def p2_def p1_def by (rule refl)
  ultimately show ?thesis by linarith
qed

lemma parse_number_ge: "parse_number fp content pos = Inr (v, pos') \<Longrightarrow> pos \<le> pos'"
  using number_end_ge[of pos content]
  by (simp add: parse_number_eq Let_def split: if_splits option.splits)

lemma parse_mono_aux:
  fixes fp :: "'d float_ops"
  shows
  "parse_value_parse_object_parse_object_loop_parse_array_parse_array_loop_dom (Inl (Inl (fp, content, pos)))
      \<Longrightarrow> (\<forall>v p'. parse_value fp content pos = Inr (v, p') \<longrightarrow> pos \<le> p')"
  "parse_value_parse_object_parse_object_loop_parse_array_parse_array_loop_dom (Inl (Inr (fp, content, pos)))
      \<Longrightarrow> (\<forall>v p'. parse_object fp content pos = Inr (v, p') \<longrightarrow> pos \<le> p')"
  "parse_value_parse_object_parse_object_loop_parse_array_parse_array_loop_dom (Inr (Inl (fp, content, pos, obj)))
      \<Longrightarrow> (\<forall>v p'. parse_object_loop fp content pos obj = Inr (v, p') \<longrightarrow> pos \<le> p')"
  "parse_value_parse_object_parse_object_loop_parse_array_parse_array_loop_dom (Inr (Inr (Inl (fp, content, pos))))
      \<Longrightarrow> (\<forall>v p'. parse_array fp content pos = Inr (v, p') \<longrightarrow> pos \<le> p')"
  "parse_value_parse_object_parse_object_loop_parse_array_parse_array_loop_dom (Inr (Inr (Inr (fp, content, pos, arr))))
      \<Longrightarrow> (\<forall>v p'. parse_array_loop fp content pos arr = Inr (v, p') \<longrightarrow> pos \<le> p')"
proof (induction fp content pos and fp content pos and fp content pos obj and fp content pos
         and fp content pos arr
       rule: parse_value_parse_object_parse_object_loop_parse_array_parse_array_loop.pinduct)
  case (1 fp content pos0)
  show ?case
  proof (intro allI impI)
    fix v p' assume r: "parse_value fp content pos0 = Inr (v, p')"
    define pos where "pos = skip_whitespace content pos0"
    have ge: "pos0 \<le> pos" by (simp add: pos_def skip_whitespace_ge)
    have "pos \<le> p'"
      using r "1.IH"(1)[OF pos_def] "1.IH"(2)[OF pos_def]
      unfolding parse_value.psimps[OF "1.hyps"] Let_def pos_def[symmetric]
      by (auto split: if_splits sum.splits dest: parse_string_gt parse_number_ge)
    with ge show "pos0 \<le> p'" by simp
  qed
next
  case (2 fp content pos0)
  show ?case
  proof (intro allI impI)
    fix v p' assume r: "parse_object fp content pos0 = Inr (v, p')"
    define pos where "pos = skip_whitespace content (pos0 + 1)"
    have ge: "pos0 + 1 \<le> pos" by (simp add: pos_def skip_whitespace_ge)
    have "pos \<le> p'"
      using r "2.IH"[OF refl refl pos_def]
      unfolding parse_object.psimps[OF "2.hyps"] Let_def pos_def[symmetric]
      by (auto split: if_splits)
    with ge show "pos0 \<le> p'" by simp
  qed
next
  case (3 fp content pos0 obj)
  show ?case
  proof (intro allI impI)
    fix v p' assume r: "parse_object_loop fp content pos0 obj = Inr (v, p')"
    show "pos0 \<le> p'"
    proof (cases "pos0 < length content")
      case False
      with r show ?thesis
        unfolding parse_object_loop.psimps[OF "3.hyps"] by simp
    next
      case True
      define pos1 where "pos1 = skip_whitespace content pos0"
      from r True obtain key pos2 where
        ps: "parse_string content pos1 = Inr (key, pos2)" and q: "\<not> char_at content pos1 \<noteq> CHR 0x22"
        unfolding parse_object_loop.psimps[OF "3.hyps"] Let_def pos1_def[symmetric]
        by (auto split: if_splits sum.splits)
      define pos3 where "pos3 = skip_whitespace content pos2"
      define pos4 where "pos4 = skip_whitespace content (pos3 + 1)"
      have pos4': "skip_whitespace content (Suc pos3) = pos4" by (simp add: pos4_def)
      from r True ps q obtain w pos5 where
        pv: "parse_value fp content pos4 = Inr (w, pos5)"
        and c: "\<not> (length content \<le> pos3 \<or> content ! pos3 \<noteq> CHR '':'')"
        unfolding parse_object_loop.psimps[OF "3.hyps"] Let_def pos1_def[symmetric]
        by (auto simp: pos3_def[symmetric] pos4' split: if_splits sum.splits)
      define pos6 where "pos6 = skip_whitespace content pos5"
      have a1: "pos4 \<le> pos5"
        using "3.IH"(1)[OF True pos1_def q ps refl pos3_def c refl pos4_def] pv by blast
      have chain: "pos0 \<le> pos1" "pos1 < pos2" "pos2 \<le> pos3" "pos3 + 1 \<le> pos4" "pos5 \<le> pos6"
        using ps by (auto simp: pos1_def pos3_def pos4_def pos6_def skip_whitespace_ge dest: parse_string_gt)
      have "pos6 \<le> p'"
        using r True ps q c pv
          "3.IH"(2)[OF True pos1_def q ps refl pos3_def c refl pos4_def pv refl refl pos6_def]
        unfolding parse_object_loop.psimps[OF "3.hyps"] Let_def pos1_def[symmetric]
        by (auto simp: pos3_def[symmetric] pos4' pos6_def[symmetric] split: if_splits)
      with chain a1 show ?thesis by linarith
    qed
  qed
next
  case (4 fp content pos0)
  show ?case
  proof (intro allI impI)
    fix v p' assume r: "parse_array fp content pos0 = Inr (v, p')"
    define pos where "pos = skip_whitespace content (pos0 + 1)"
    have ge: "pos0 + 1 \<le> pos" by (simp add: pos_def skip_whitespace_ge)
    have "pos \<le> p'"
      using r "4.IH"[OF refl refl pos_def]
      unfolding parse_array.psimps[OF "4.hyps"] Let_def pos_def[symmetric]
      by (auto split: if_splits)
    with ge show "pos0 \<le> p'" by simp
  qed
next
  case (5 fp content pos0 arr)
  show ?case
  proof (intro allI impI)
    fix v p' assume r: "parse_array_loop fp content pos0 arr = Inr (v, p')"
    show "pos0 \<le> p'"
    proof (cases "pos0 < length content")
      case False
      with r show ?thesis
        unfolding parse_array_loop.psimps[OF "5.hyps"] by simp
    next
      case True
      define pos1 where "pos1 = skip_whitespace content pos0"
      from r True obtain w pos5 where
        pv: "parse_value fp content pos1 = Inr (w, pos5)"
        unfolding parse_array_loop.psimps[OF "5.hyps"] Let_def pos1_def[symmetric]
        by (auto split: if_splits sum.splits)
      define pos6 where "pos6 = skip_whitespace content pos5"
      have a1: "pos1 \<le> pos5"
        using "5.IH"(1)[OF True pos1_def] pv by blast
      have chain: "pos0 \<le> pos1" "pos5 \<le> pos6"
        by (auto simp: pos1_def pos6_def skip_whitespace_ge)
      have "pos6 \<le> p'"
        using r True pv
          "5.IH"(2)[OF True pos1_def pv refl refl pos6_def]
        unfolding parse_array_loop.psimps[OF "5.hyps"] Let_def pos1_def[symmetric]
        by (auto simp: pos6_def[symmetric] split: if_splits)
      with chain a1 show ?thesis by linarith
    qed
  qed
qed


termination parse_value
proof (relation "measure (\<lambda>x. case x of
      Inl (Inl (fp, content, pos)) \<Rightarrow> 3 * (length content - pos) + 2
    | Inl (Inr (fp, content, pos)) \<Rightarrow> 3 * (length content - pos) + 1
    | Inr (Inl (fp, content, pos, obj)) \<Rightarrow>
        (if pos < length content then 3 * (length content - pos) + 3 else 0)
    | Inr (Inr (Inl (fp, content, pos))) \<Rightarrow> 3 * (length content - pos) + 1
    | Inr (Inr (Inr (fp, content, pos, arr))) \<Rightarrow>
        (if pos < length content then 3 * (length content - pos) + 3 else 0))",
    goal_cases)
  case 1
  show ?case by (simp; arith)
next
  case (2 fp content pos0 x xa)
  then show ?case using skip_whitespace_ge[of pos0 content] by (simp; arith)
next
  case (3 fp content pos0 x xa)
  then show ?case using skip_whitespace_ge[of pos0 content] by (simp; arith)
next
  case (4 fp content pos0 x xa xb)
  then show ?case using skip_whitespace_ge[of "pos0 + 1" content] by (simp; arith)
next
  case (5 fp content pos0 obj x b xa y xb xc xd)
  then show ?case
    using skip_whitespace_ge[of pos0 content] skip_whitespace_ge[of y content]
      skip_whitespace_ge[of "xb + 1" content] parse_string_gt[of content x xa y]
    by (simp; arith)
next
  case (6 fp content pos0 obj x b xa y xb xc xd ba xe ya xf xg)
  then have "xd \<le> ya" using parse_mono_aux(1)[of fp content xd] by auto
  with 6 show ?case
    using skip_whitespace_ge[of pos0 content] skip_whitespace_ge[of y content]
      skip_whitespace_ge[of "xb + 1" content] parse_string_gt[of content x xa y]
      skip_whitespace_ge[of ya content]
    by (simp; arith)
next
  case (7 fp content pos0 x xa xb)
  then show ?case using skip_whitespace_ge[of "pos0 + 1" content] by (simp; arith)
next
  case (8 fp content pos0 arr x)
  then show ?case using skip_whitespace_ge[of pos0 content] by (simp; arith)
next
  case (9 fp content pos0 arr x b xa y xb xc)
  then have "x \<le> y" using parse_mono_aux(1)[of fp content x] by auto
  with 9 show ?case
    using skip_whitespace_ge[of pos0 content] skip_whitespace_ge[of y content]
    by (simp; arith)
qed


declare parse_value.simps [simp del] parse_object.simps [simp del]
  parse_object_loop.simps [simp del] parse_array.simps [simp del]
  parse_array_loop.simps [simp del]

text \<open>
  \<open>parse\<close> catches every \<open>std::exception\<close>; the functions above throw nothing else.
\<close>

definition parse :: "'d float_ops \<Rightarrow> string \<Rightarrow> 'd JSONResult" where
  "parse fp content =
     (let pos = skip_whitespace content 0 in
      case parse_value fp content pos of
        Inr (v, pos) \<Rightarrow> JSONResult_default\<lparr>root := v, success := True\<rparr>
      | Inl e \<Rightarrow> JSONResult_default\<lparr>success := False, error_message := what e\<rparr>)"

section \<open>JSONParser: serialisation\<close>

lemma size_map_of:
  "map_of m key = Some v \<Longrightarrow> size v < Suc (size_list (size_prod (\<lambda>_. 0) size) m)"
  by (induction m) (auto split: if_splits)

lemma size_get: "get_type v = TObject \<Longrightarrow> key \<in> set (get_keys_value v) \<Longrightarrow>
  size (get v key) < size v"
proof (cases v)
  case (Object m)
  assume "key \<in> set (get_keys_value v)"
  with Object obtain w where w: "map_of m key = Some w"
    by (cases "map_of m key") (auto simp: map_of_eq_None_iff)
  from size_map_of[OF w] Object w show ?thesis by simp
qed auto

lemma size_at: "get_type v = TArray \<Longrightarrow> i < size_json v \<Longrightarrow>
  size (at_json v i) < size v"
proof (cases v)
  case (Array xs)
  assume "i < size_json v"
  with Array have "xs ! i \<in> set xs" by simp
  then have "size (xs ! i) \<le> size_list size xs"
    by (rule size_list_estimation') simp
  with Array \<open>i < size_json v\<close> show ?thesis by simp
qed auto

text \<open>
  The two \<open>for\<close> loops of \<open>value_to_string\<close> are folds over the keys and over the
  indices, on the pair of the local variables \<open>result\<close> and \<open>first\<close>.
\<close>

function value_to_string :: "'d float_ops \<Rightarrow> 'd JSONValue \<Rightarrow> nat \<Rightarrow> bool \<Rightarrow> string" where
  "value_to_string fp value indent pretty_print =
     (let indent_str = (if pretty_print then replicate (indent * 2) CHR '' '' else []);
          newline = (if pretty_print then [CHR 0x0A] else [])
      in case get_type value of
           TString \<Rightarrow> [CHR 0x22] @ as_string fp value @ [CHR 0x22]
         | TInteger \<Rightarrow> as_string fp value
         | TNumber \<Rightarrow> as_string fp value
         | TBoolean \<Rightarrow> as_string fp value
         | TNull \<Rightarrow> ''null''
         | TObject \<Rightarrow>
             (let (result, first) =
                foldl (\<lambda>acc key. case acc of (result, first) \<Rightarrow>
                         (result @ (if \<not> first then '','' @ newline else [])
                            @ indent_str @ (if pretty_print then ''  '' else [])
                            @ [CHR 0x22] @ key @ [CHR 0x22] @ '': ''
                            @ value_to_string fp (get value key) (indent + 1) pretty_print,
                          False))
                  (''{'' @ newline, True) (get_keys_value value)
              in result @ newline @ indent_str @ ''}'')
         | TArray \<Rightarrow>
             (let (result, first) =
                foldl (\<lambda>acc i. case acc of (result, first) \<Rightarrow>
                         (result @ (if \<not> first then '','' @ newline else [])
                            @ indent_str @ (if pretty_print then ''  '' else [])
                            @ value_to_string fp (at_json value i) (indent + 1) pretty_print,
                          False))
                  (''['' @ newline, True) [0 ..< size_json value]
              in result @ newline @ indent_str @ '']''))"
  by pat_completeness auto
termination
  by (relation "measure (\<lambda>(fp, value, indent, pretty_print). size value)")
     (auto simp: size_get size_at)

declare value_to_string.simps [simp del]

definition to_string :: "'d float_ops \<Rightarrow> 'd JSONResult \<Rightarrow> bool \<Rightarrow> string" where
  "to_string fp r pretty_print = value_to_string fp (root r) 0 pretty_print"


section \<open>A floating-point library with exact decimal arithmetic\<close>

text \<open>
  One instance of the floating-point parameter, used to run the model on concrete
  inputs: the values are the rationals and no operation rounds. \<open>stod_exact\<close> reads the
  decimal syntax of \<open>strtod\<close> (white space, sign, digits with an optional point, an
  optional exponent; at least one digit in the mantissa), which covers every lexeme the
  parser can pass to it; \<open>to_string_exact\<close> is the format \<open>%f\<close>: six digits after the
  point, rounded to nearest, ties to even.
\<close>

definition pow10 :: "int \<Rightarrow> rat" where
  "pow10 e = (if e \<ge> 0 then 10 ^ nat e else 1 / 10 ^ nat (- e))"

definition stod_exact :: "string \<Rightarrow> rat option" where
  "stod_exact s =
     (let s1 = dropWhile isspace s;
          neg = (s1 \<noteq> [] \<and> hd s1 = CHR ''-'');
          s2 = (if s1 \<noteq> [] \<and> (hd s1 = CHR ''-'' \<or> hd s1 = CHR ''+'') then tl s1 else s1);
          ip = takeWhile isdigit s2;
          s3 = dropWhile isdigit s2;
          has_point = (s3 \<noteq> [] \<and> hd s3 = CHR ''.'');
          fd = (if has_point then takeWhile isdigit (tl s3) else []);
          s4 = (if has_point then dropWhile isdigit (tl s3) else s3);
          has_exp = (s4 \<noteq> [] \<and> (hd s4 = CHR ''e'' \<or> hd s4 = CHR ''E''));
          s5 = (if has_exp then tl s4 else []);
          eneg = (s5 \<noteq> [] \<and> hd s5 = CHR ''-'');
          s6 = (if s5 \<noteq> [] \<and> (hd s5 = CHR ''-'' \<or> hd s5 = CHR ''+'') then tl s5 else s5);
          ed = takeWhile isdigit s6;
          e = (if eneg then - int (decimal_value ed) else int (decimal_value ed));
          m = of_nat (decimal_value (ip @ fd)) * pow10 (e - int (length fd))
      in if ip = [] \<and> fd = [] then None else Some (if neg then - m else m))"

definition round_half_even :: "rat \<Rightarrow> int" where
  "round_half_even x =
     (let f = \<lfloor>x\<rfloor>; r = x - of_int f
      in if r < 1 / 2 then f else if 1 / 2 < r then f + 1 else if even f then f else f + 1)"

definition to_string_exact :: "rat \<Rightarrow> string" where
  "to_string_exact x =
     (let n = nat (round_half_even (\<bar>x\<bar> * 10 ^ 6));
          frac = digits (n mod 10 ^ 6)
      in (if x < 0 then ''-'' else []) @ digits (n div 10 ^ 6) @ ''.''
         @ replicate (6 - length frac) CHR ''0'' @ frac)"

definition exact_ops :: "rat float_ops" where
  "exact_ops =
     \<lparr>stod = stod_exact,
      to_string_double = to_string_exact,
      double_to_int = (\<lambda>x. word_of_int (if 0 \<le> x then \<lfloor>x\<rfloor> else \<lceil>x\<rceil>)),
      int_to_double = (\<lambda>i. of_int (sint i)),
      is_zero = (\<lambda>x. x = 0)\<rparr>"

section \<open>Running the model on concrete inputs\<close>

text \<open>
  The recursive equations are not simplification rules; these collections unfold them
  on a concrete input, where every test is decided.
\<close>

lemmas parse_eval =
  parse_def parse_value.simps parse_object.simps parse_object_loop.simps
  parse_array.simps parse_array_loop.simps parse_string_def parse_string_loop.simps
  parse_number_def skip_whitespace.simps skip_digits.simps escape_char_def
  JSONResult_default_def char_at_def substr_def isspace_def isdigit_def Let_def

lemmas eval_cong =
  sum.case_cong_weak prod.case_cong_weak option.case_cong_weak if_weak_cong let_weak_cong

lemmas path_eval = get_value_def get_value_loop.simps getline_def Let_def

section \<open>Conversions and child accessors of JSONValue\<close>

text \<open>
  C7. \<open>as_bool\<close> on every kind: a String is false exactly when it is empty,
  \<open>"false"\<close> or \<open>"0"\<close>; an Integer and a Number are true exactly when the stored
  number is not zero; a Boolean is itself; Null, Array and Object are false.
\<close>

theorem as_bool_rules:
  "as_bool fp (String s) = (\<not> (s = [] \<or> s = ''false'' \<or> s = ''0''))
   \<and> as_bool fp (Integer i) = (i \<noteq> 0)
   \<and> as_bool fp (Number d) = (\<not> is_zero fp d)
   \<and> as_bool fp (Boolean b) = b
   \<and> as_bool fp Null = False
   \<and> as_bool fp (Array xs) = False
   \<and> as_bool fp (Object m) = False"
  by simp

text \<open>
  C8. The child accessors return a value in every case: \<open>get\<close> on a value that is not
  an Object is Null, \<open>at\<close> on a value that is not an Array or at an index out of bounds
  is Null, and \<open>size\<close> is the number of children of an Array or Object and 0 otherwise.
\<close>

theorem child_accessors_total:
  "(get_type v \<noteq> TObject \<longrightarrow> get_type (get v k) = TNull)
   \<and> (get_type v \<noteq> TArray \<or> size_json v \<le> i \<longrightarrow> get_type (at_json v i) = TNull)
   \<and> size_json v = (case v of Array xs \<Rightarrow> length xs | Object m \<Rightarrow> length m | _ \<Rightarrow> 0)"
  by (cases v) auto

theorem child_accessors_total_witness:
  "get_type (get (Integer 5 :: rat JSONValue) ''a'') = TNull
   \<and> get_type (at_json (String ''abc'' :: rat JSONValue) 0) = TNull
   \<and> get_type (at_json (Array [Integer 1, Integer 2] :: rat JSONValue) 2) = TNull
   \<and> size_json (Array [Integer 1, Integer 2] :: rat JSONValue) = 2
   \<and> size_json (Object [(''a'', Null), (''b'', Null)] :: rat JSONValue) = 2
   \<and> size_json (Boolean True :: rat JSONValue) = 0"
  using child_accessors_total [of "Integer 5 :: rat JSONValue" "''a''" 0]
    child_accessors_total [of "String ''abc'' :: rat JSONValue" "''a''" 0]
    child_accessors_total [of "Array [Integer 1, Integer 2] :: rat JSONValue" "''a''" 2]
    child_accessors_total [of "Object [(''a'', Null), (''b'', Null)] :: rat JSONValue" "''a''" 2]
    child_accessors_total [of "Boolean True :: rat JSONValue" "''a''" 2]
  by simp

section \<open>Typed getters\<close>

lemma parse_a_null:
  \<open>parse fp ''{"a":null}'' =
     \<lparr>success = True, error_message = [], root = Object [([], Null), (''a'', Null)]\<rparr>\<close>
  by (simp add: parse_eval split del: if_split cong: eval_cong)

lemma a_null_get_a:
  "get_value \<lparr>success = True, error_message = [], root = Object [([], Null), (''a'', Null)]\<rparr> ''a''
     = (Null :: 'd JSONValue)"
  by (simp add: path_eval split del: if_split cong: eval_cong)

lemma a_null_get_b:
  "get_value \<lparr>success = True, error_message = [], root = Object [([], Null), (''a'', Null)]\<rparr> ''b''
     = (Null :: 'd JSONValue)"
  by (simp add: path_eval split del: if_split cong: eval_cong)

text \<open>
  C6. Whenever the value a typed getter resolves is Null, the caller's default comes
  back unchanged; after parsing \<open>{"a":null}\<close> this is so for the key \<open>a\<close>, which is
  present with a null value, as for the absent key \<open>b\<close>: \<open>get_int("a", 7) = 7\<close>.
\<close>

theorem getters_default_on_null:
  \<open>(get_type (get_value r path) = TNull \<longrightarrow>
      get_int fp r path i = i \<and> get_string fp r path s = s
      \<and> get_double fp r path d = d \<and> get_bool fp r path b = b)
   \<and> has_key (root (parse fp ''{"a":null}'')) ''a''
   \<and> get_int fp (parse fp ''{"a":null}'') ''a'' 7 = 7
   \<and> \<not> has_key (root (parse fp ''{"a":null}'')) ''b''
   \<and> get_int fp (parse fp ''{"a":null}'') ''b'' 7 = 7\<close>
  by (simp add: parse_a_null get_int_def get_string_def get_double_def get_bool_def
        a_null_get_a a_null_get_b)

theorem getters_default_on_null_witness:
  \<open>get_type (get_value (parse exact_ops ''{"a":null}'') ''a'') = TNull
   \<and> get_int exact_ops (parse exact_ops ''{"a":null}'') ''a'' 7 = 7
   \<and> get_string exact_ops (parse exact_ops ''{"a":null}'') ''a'' ''dflt'' = ''dflt''
   \<and> get_double exact_ops (parse exact_ops ''{"a":null}'') ''a'' (5 / 2) = 5 / 2
   \<and> get_bool exact_ops (parse exact_ops ''{"a":null}'') ''a'' True = True\<close>
proof -
  have h: \<open>get_type (get_value (parse exact_ops ''{"a":null}'') ''a'') = TNull\<close>
    by (simp add: parse_a_null a_null_get_a)
  note t = getters_default_on_null [of \<open>parse exact_ops ''{"a":null}''\<close> "''a''" exact_ops 7
      "''dflt''" "5 / 2" True, THEN conjunct1, rule_format, OF h]
  show ?thesis by (rule conjI [OF h t])
qed

section \<open>The path accessor\<close>

text \<open>
  The path language in the words of the specification: the path is split on \<open>'.'\<close>
  (\<open>spec_split\<close>: the text between the dots, empty segments included), and the walk
  from the root (\<open>spec_resolve\<close>) fails with Null at a value that is not an Object and
  at a child that is Null. \<open>spec_segments\<close> drops one empty segment at the end of the
  split and no other.
\<close>

fun spec_split :: "string \<Rightarrow> string list" where
  "spec_split [] = [[]]"
| "spec_split (c # cs) =
     (if c = CHR ''.'' then [] # spec_split cs
      else (c # hd (spec_split cs)) # tl (spec_split cs))"

definition spec_segments :: "string \<Rightarrow> string list" where
  "spec_segments path = (let ss = spec_split path in if last ss = [] then butlast ss else ss)"

fun spec_resolve :: "'d JSONValue \<Rightarrow> string list \<Rightarrow> 'd JSONValue" where
  "spec_resolve current [] = current"
| "spec_resolve current (segment # rest) =
     (if get_type current \<noteq> TObject then Null
      else (let current = get current segment in
            if get_type current = TNull then Null else spec_resolve current rest))"

lemma spec_split_not_Nil: "spec_split s \<noteq> []"
  by (induction s) auto

lemma spec_split_first:
  "spec_split s = takeWhile (\<lambda>c. c \<noteq> CHR ''.'') s #
     (case dropWhile (\<lambda>c. c \<noteq> CHR ''.'') s of [] \<Rightarrow> [] | _ # r \<Rightarrow> spec_split r)"
  by (induction s) (auto split: list.splits)

lemma spec_segments_Nil: "spec_segments [] = []"
  by (simp add: spec_segments_def)

lemma spec_segments_getline:
  assumes "getline stream = Some (component, stream')"
  shows "spec_segments stream = component # spec_segments stream'"
proof -
  let ?ne = "\<lambda>c. c \<noteq> CHR ''.''"
  from assms have ne: "stream \<noteq> []" and c: "component = takeWhile ?ne stream"
    and s': "stream' = drop (length component + 1) stream"
    by (auto simp: getline_def Let_def split: if_splits)
  have d: "drop (length component) stream = dropWhile ?ne stream"
    unfolding c by (rule dropWhile_eq_drop [symmetric])
  show ?thesis
  proof (cases "dropWhile ?ne stream")
    case Nil
    then have tw: "takeWhile ?ne stream = stream" by (simp add: takeWhile_eq_all_conv)
    have sd: "spec_split stream = [stream]"
      by (subst spec_split_first) (simp add: Nil tw)
    have "stream' = []" using s' c tw by simp
    then show ?thesis
      using ne by (simp add: spec_segments_def sd c tw)
  next
    case (Cons x r)
    have "stream' = r"
      using s' d Cons by (metis Suc_eq_plus1 drop_Suc list.sel(3) tl_drop)
    moreover have sd: "spec_split stream = component # spec_split r"
      by (subst spec_split_first) (simp add: Cons c)
    ultimately show ?thesis
      using spec_split_not_Nil [of r] by (simp add: spec_segments_def sd Let_def)
  qed
qed

lemma get_value_loop_resolve: "get_value_loop current path = spec_resolve current (spec_segments path)"
proof (induction current path rule: get_value_loop.induct)
  case (1 current path_stream)
  show ?case
  proof (cases "getline path_stream")
    case None
    then have "path_stream = []" by (simp add: getline_def Let_def split: if_splits)
    then show ?thesis by (subst get_value_loop.simps) (simp add: getline_def spec_segments_Nil)
  next
    case (Some a)
    obtain component stream' where a: "a = (component, stream')" by (cases a)
    note seg = spec_segments_getline [OF Some [unfolded a]]
    show ?thesis
      using "1.IH" [OF Some [unfolded a] refl, of "get current component"]
      by (subst get_value_loop.simps) (simp add: Some a seg Let_def)
  qed
qed



lemma spec_split_snoc:
  "spec_split (p @ [c]) =
     (if c = CHR ''.'' then spec_split p @ [[]]
      else butlast (spec_split p) @ [last (spec_split p) @ [c]])"
proof (induction p)
  case Nil
  show ?case by simp
next
  case (Cons a p)
  obtain x xs where sd: "spec_split p = x # xs"
    using spec_split_not_Nil [of p] by (cases "spec_split p") auto
  show ?case
    using Cons.IH by (cases xs rule: rev_cases) (auto simp: sd)
qed

lemma spec_segments_trailing_dot:
  assumes "path \<noteq> []" "last path \<noteq> CHR ''.''"
  shows "spec_segments (path @ ''.'') = spec_segments path"
proof -
  from assms obtain p c where path: "path = p @ [c]" and c: "c \<noteq> CHR ''.''"
    by (cases path rule: rev_cases) auto
  have "last (spec_split path) \<noteq> []"
    unfolding path by (simp add: spec_split_snoc c)
  moreover have "spec_split (path @ ''.'') = spec_split path @ [[]]"
    by (simp add: spec_split_snoc)
  ultimately show ?thesis by (simp add: spec_segments_def)
qed

text \<open>
  What \<open>get_value\<close> does: it walks the segments between the dots. The empty segment
  after a trailing dot is dropped, since \<open>std::getline\<close> extracts nothing at the end of
  the stream, so a path and the same path with one dot appended resolve to the same value.
  Every other empty segment (after a leading dot, between two dots) is looked up as the
  key \<open>""\<close>.
\<close>

lemma get_value_segments:
  "get_value r path = spec_resolve (root r) (spec_segments path)
   \<and> (path \<noteq> [] \<and> last path \<noteq> CHR ''.'' \<longrightarrow> get_value r (path @ ''.'') = get_value r path)"
  by (simp add: get_value_def get_value_loop_resolve spec_segments_Nil spec_segments_trailing_dot)

lemma parse_a_b_1:
  \<open>parse fp ''{"a":{"b":1}}'' =
     \<lparr>success = True, error_message = [],
      root = Object [([], Null), (''a'', Object [([], Null), (''b'', Integer 1)])]\<rparr>\<close>
  by (simp add: parse_eval stoi_def decimal_value_def digit_value_def
        split del: if_split cong: eval_cong)

text \<open>
  C3. The claim does not hold of \<open>JSONResult::get_value\<close>: its loop has no test for an
  empty component (the loops of \<open>XMLResult::get_node\<close> and \<open>XMLParser::split_path\<close>,
  over the same \<open>std::getline\<close>, skip a component that is empty). After parsing
  \<open>{"a":{"b":1}}\<close> the path \<open>a.b\<close> resolves to the Integer 1, and the paths \<open>.a.b\<close> and
  \<open>a..b\<close>, which are \<open>a.b\<close> once the empty segments are removed, resolve to Null.
\<close>

theorem empty_segments_counterexample:
  \<open>get_value (parse exact_ops ''{"a":{"b":1}}'') ''a.b'' = Integer 1
   \<and> get_value (parse exact_ops ''{"a":{"b":1}}'') ''.a.b'' = Null
   \<and> get_value (parse exact_ops ''{"a":{"b":1}}'') ''a..b'' = Null\<close>
  by (simp add: parse_a_b_1 path_eval split del: if_split cong: eval_cong)

section \<open>The result of parse\<close>

text \<open>Every exception the parsing functions raise carries a non-empty message.\<close>

lemma parse_string_loop_error:
  "parse_string_loop content pos acc = Inl e \<Longrightarrow> what e \<noteq> []"
proof (induction content pos acc rule: parse_string_loop.induct)
  case (1 content pos result)
  note IH1 = "1.IH"(1)[OF _ refl refl _ _ _ refl refl]
  note IH2 = "1.IH"(2)[OF _ refl refl]
  show ?case
  proof (cases "pos < length content")
    case False
    with "1.prems" show ?thesis
      by (subst (asm) parse_string_loop.simps) auto
  next
    case len: True
    show ?thesis
    proof (cases "content ! pos = CHR 0x22")
      case True
      with "1.prems" len show ?thesis
        by (subst (asm) parse_string_loop.simps) (simp add: Let_def)
    next
      case nq: False
      show ?thesis
      proof (cases "content ! pos = CHR 0x5C")
        case True
        with "1.prems" len nq consider
            (lit) "what e \<noteq> []"
          | (rec) x where "\<not> length content \<le> pos + 1" "escape_char (content ! (pos + 1)) = Some x"
              "parse_string_loop content (pos + 1 + 1) (result @ [x]) = Inl e"
          by (subst (asm) parse_string_loop.simps)
             (auto simp: Let_def split: if_splits option.splits)
        then show ?thesis
        proof cases
          case rec
          with IH1[OF len nq True] show ?thesis by fastforce
        qed
      next
        case False
        with "1.prems" len nq have
          "parse_string_loop content (pos + 1) (result @ [content ! pos]) = Inl e"
          by (subst (asm) parse_string_loop.simps) (simp add: Let_def)
        with IH2[OF len nq False] show ?thesis by fastforce
      qed
    qed
  qed
qed

lemma parse_string_error: "parse_string content pos = Inl e \<Longrightarrow> what e \<noteq> []"
  by (auto simp: parse_string_def split: if_splits dest: parse_string_loop_error)

lemma parse_number_error: "parse_number fp content pos = Inl e \<Longrightarrow> what e \<noteq> []"
  by (auto simp: parse_number_eq Let_def split: if_splits option.splits)

lemma parse_error_nonempty:
  shows "parse_value fp content pos = Inl e \<Longrightarrow> what e \<noteq> []"
    and "parse_object fp content pos = Inl e \<Longrightarrow> what e \<noteq> []"
    and "parse_object_loop fp content pos obj = Inl e \<Longrightarrow> what e \<noteq> []"
    and "parse_array fp content pos = Inl e \<Longrightarrow> what e \<noteq> []"
    and "parse_array_loop fp content pos arr = Inl e \<Longrightarrow> what e \<noteq> []"
proof (induction fp content pos and fp content pos and fp content pos obj and fp content pos
         and fp content pos arr
       rule: parse_value_parse_object_parse_object_loop_parse_array_parse_array_loop.induct)
  case (1 fp content pos0)
  define pos where "pos = skip_whitespace content pos0"
  show ?case
  proof (cases "length content \<le> pos")
    case True
    with "1.prems" show ?thesis
      by (subst (asm) parse_value.simps) (auto simp: Let_def pos_def)
  next
    case len: False
    note IH1 = "1.IH"(1)[OF pos_def len refl]
    note IH2 = "1.IH"(2)[OF pos_def len refl]
    from "1.prems" len consider
        (obj) "content ! pos = CHR ''{''" "parse_object fp content pos = Inl e"
      | (arr) "content ! pos \<noteq> CHR ''{''" "content ! pos = CHR ''[''" "parse_array fp content pos = Inl e"
      | (str) "parse_string content pos = Inl e"
      | (num) "parse_number fp content pos = Inl e"
      | (lit) "what e \<noteq> []"
      by (subst (asm) parse_value.simps)
         (auto simp: Let_def pos_def[symmetric] split: if_splits sum.splits)
    then show ?thesis
    proof cases
      case obj then show ?thesis using IH1 by blast
    next
      case arr then show ?thesis using IH2 by blast
    qed (auto dest: parse_string_error parse_number_error)
  qed
next
  case (2 fp content pos0)
  define pos where "pos = skip_whitespace content (pos0 + 1)"
  have pos': "skip_whitespace content (Suc pos0) = pos" by (simp add: pos_def)
  note IH = "2.IH"[OF refl refl pos_def]
  from "2.prems" have
    "\<not> (pos < length content \<and> content ! pos = CHR ''}'')"
    "parse_object_loop fp content pos (set_json [] Null Null) = Inl e"
    by (subst (asm) parse_object.simps; auto simp: Let_def pos' split: if_splits)+
  then show ?case using IH by blast
next
  case (3 fp content pos0 obj)
  have True: "pos0 < length content"
    using "3.prems" by (subst (asm) parse_object_loop.simps) (simp split: if_splits)
  define pos1 where "pos1 = skip_whitespace content pos0"
  show ?case
  proof (cases "parse_string content pos1")
    case (Inl e')
    with "3.prems" True show ?thesis
      by (subst (asm) parse_object_loop.simps)
         (auto simp: Let_def pos1_def[symmetric] split: if_splits dest: parse_string_error)
  next
    case (Inr a)
    obtain key pos2 where a: "a = (key, pos2)" by (cases a)
    note ps = Inr[unfolded a]
    define pos3 where "pos3 = skip_whitespace content pos2"
    define pos4 where "pos4 = skip_whitespace content (pos3 + 1)"
    have pos4': "skip_whitespace content (Suc pos3) = pos4" by (simp add: pos4_def)
    show ?thesis
    proof (cases "\<not> char_at content pos1 \<noteq> CHR 0x22 \<and>
                  \<not> (length content \<le> pos3 \<or> content ! pos3 \<noteq> CHR '':'')")
      case False
      with "3.prems" True ps show ?thesis
        by (subst (asm) parse_object_loop.simps)
           (auto simp: Let_def pos1_def[symmetric] pos3_def[symmetric] split: if_splits)
    next
      case ok: True
      then have q: "\<not> char_at content pos1 \<noteq> CHR 0x22"
        and c: "\<not> (length content \<le> pos3 \<or> content ! pos3 \<noteq> CHR '':'')" by auto
      show ?thesis
      proof (cases "parse_value fp content pos4")
        case (Inl e')
        with "3.prems" True ps q c have "e' = e"
          by (subst (asm) parse_object_loop.simps)
             (auto simp: Let_def pos1_def[symmetric] pos3_def[symmetric] pos4' split: if_splits)
        with Inl "3.IH"(1)[OF True pos1_def q ps refl pos3_def c refl pos4_def] show ?thesis
          by simp
      next
        case (Inr b)
        obtain w pos5 where b: "b = (w, pos5)" by (cases b)
        note pv = Inr[unfolded b]
        define pos6 where "pos6 = skip_whitespace content pos5"
        from "3.prems" True ps q c pv consider
            (lit) "what e \<noteq> []"
          | (more) "\<not> length content \<le> pos6" "content ! pos6 \<noteq> CHR ''}''" "content ! pos6 = CHR '',''"
              "parse_object_loop fp content (pos6 + 1) (set_json key w obj) = Inl e"
          by (subst (asm) parse_object_loop.simps)
             (auto simp: Let_def pos1_def[symmetric] pos3_def[symmetric] pos4' pos6_def[symmetric]
                   split: if_splits)
        then show ?thesis
        proof cases
          case more
          show ?thesis
            using "3.IH"(2)[OF True pos1_def q ps refl pos3_def c refl pos4_def pv refl refl pos6_def
                more(1,2,3) more(4)] .
        qed
      qed
    qed
  qed
next
  case (4 fp content pos0)
  define pos where "pos = skip_whitespace content (pos0 + 1)"
  have pos': "skip_whitespace content (Suc pos0) = pos" by (simp add: pos_def)
  note IH = "4.IH"[OF refl refl pos_def]
  from "4.prems" have
    "\<not> (pos < length content \<and> content ! pos = CHR '']'')"
    "parse_array_loop fp content pos Null = Inl e"
    by (subst (asm) parse_array.simps; auto simp: Let_def pos' split: if_splits)+
  then show ?case using IH by blast
next
  case (5 fp content pos0 arr)
  have True: "pos0 < length content"
    using "5.prems" by (subst (asm) parse_array_loop.simps) (simp split: if_splits)
  define pos1 where "pos1 = skip_whitespace content pos0"
  show ?case
  proof (cases "parse_value fp content pos1")
    case (Inl e')
    with "5.prems" True have "e' = e"
      by (subst (asm) parse_array_loop.simps)
         (auto simp: Let_def pos1_def[symmetric] split: if_splits)
    with Inl "5.IH"(1)[OF True pos1_def] show ?thesis by simp
  next
    case (Inr b)
    obtain w pos5 where b: "b = (w, pos5)" by (cases b)
    note pv = Inr[unfolded b]
    define pos6 where "pos6 = skip_whitespace content pos5"
    from "5.prems" True pv consider
        (lit) "what e \<noteq> []"
      | (more) "\<not> length content \<le> pos6" "content ! pos6 \<noteq> CHR '']''" "content ! pos6 = CHR '',''"
          "parse_array_loop fp content (pos6 + 1) (push_back w arr) = Inl e"
      by (subst (asm) parse_array_loop.simps)
         (auto simp: Let_def pos1_def[symmetric] pos6_def[symmetric] split: if_splits)
    then show ?thesis
    proof cases
      case more
      show ?thesis
        using "5.IH"(2)[OF True pos1_def pv refl refl pos6_def more(1,2,3) more(4)] .
    qed
  qed
qed

section \<open>Number literals\<close>

lemma number_start_not_other:
  assumes "isdigit c \<or> c = CHR ''-''"
  shows "c \<noteq> CHR ''{''" "c \<noteq> CHR ''[''" "c \<noteq> CHR 0x22" "c \<noteq> CHR ''t''" "c \<noteq> CHR ''f''"
    "c \<noteq> CHR ''n''" "\<not> isspace c"
  using assms by (auto simp: isdigit_def isspace_def)

section \<open>Invariants of the parsed value\<close>

text \<open>
  \<open>key_read content key\<close>: somewhere in the input a quoted string that decodes to
  \<open>key\<close> is followed, after white space, by a colon. Every key the object loop passes
  to \<open>set\<close> is read so.
\<close>

definition key_read :: "string \<Rightarrow> string \<Rightarrow> bool" where
  "key_read content key =
     (\<exists>p p'. char_at content p = CHR 0x22 \<and> parse_string content p = Inr (key, p')
         \<and> char_at content (skip_whitespace content p') = CHR '':'')"

lemma parse_number_kind:
  "parse_number fp content pos = Inr (v, q) \<Longrightarrow> (\<exists>d. v = Number d) \<or> (\<exists>i. v = Integer i)"
  by (auto simp: parse_number_eq Let_def split: if_splits option.splits)

text \<open>
  An induction principle for properties of the values the parser returns: \<open>P\<close> of every
  value, \<open>Q\<close> of the object under construction, \<open>A\<close> of the array under construction.
\<close>

lemma parse_invariant:
  fixes P Q A :: "string \<Rightarrow> 'd JSONValue \<Rightarrow> bool"
  assumes scalar: "\<And>c. P c Null" "\<And>c b. P c (Boolean b)" "\<And>c i. P c (Integer i)"
      "\<And>c d. P c (Number d)" "\<And>c s. P c (String s)"
    and obj0: "\<And>c. Q c (set_json [] Null Null)"
    and obj_step: "\<And>c key v obj. Q c obj \<Longrightarrow> P c v \<Longrightarrow> key_read c key \<Longrightarrow> Q c (set_json key v obj)"
    and obj_done: "\<And>c obj. Q c obj \<Longrightarrow> P c obj"
    and arr0: "\<And>c. A c Null"
    and arr_step: "\<And>c v arr. A c arr \<Longrightarrow> P c v \<Longrightarrow> A c (push_back v arr)"
    and arr_done: "\<And>c arr. A c arr \<Longrightarrow> P c arr"
  shows "parse_value fp content pos = Inr (v, q) \<Longrightarrow> P content v"
    and "parse_object fp content pos = Inr (v, q) \<Longrightarrow> P content v"
    and "parse_object_loop fp content pos obj = Inr (v, q) \<Longrightarrow> Q content obj \<Longrightarrow> P content v"
    and "parse_array fp content pos = Inr (v, q) \<Longrightarrow> P content v"
    and "parse_array_loop fp content pos arr = Inr (v, q) \<Longrightarrow> A content arr \<Longrightarrow> P content v"
proof (induction fp content pos and fp content pos and fp content pos obj and fp content pos
         and fp content pos arr arbitrary: v q and v q and v q and v q and v q
       rule: parse_value_parse_object_parse_object_loop_parse_array_parse_array_loop.induct)
  case (1 fp content pos0)
  define pos where "pos = skip_whitespace content pos0"
  from "1.prems" have len: "\<not> length content \<le> pos"
    by (subst (asm) parse_value.simps) (simp add: Let_def pos_def split: if_splits)
  note IH1 = "1.IH"(1)[OF pos_def len refl]
  note IH2 = "1.IH"(2)[OF pos_def len refl]
  from "1.prems" len consider
      (obj) "content ! pos = CHR ''{''" "parse_object fp content pos = Inr (v, q)"
    | (arr) "content ! pos \<noteq> CHR ''{''" "content ! pos = CHR ''[''" "parse_array fp content pos = Inr (v, q)"
    | (str) s where "v = String s"
    | (bool) b where "v = Boolean b"
    | (null) "v = Null"
    | (num) "parse_number fp content pos = Inr (v, q)"
    by (subst (asm) parse_value.simps)
       (auto simp: Let_def pos_def[symmetric] split: if_splits sum.splits)
  then show ?case
  proof cases
    case obj then show ?thesis using IH1 by blast
  next
    case arr then show ?thesis using IH2 by blast
  next
    case num then show ?thesis using parse_number_kind[OF num] scalar by auto
  qed (auto simp: scalar)
next
  case (2 fp content pos0)
  define pos where "pos = skip_whitespace content (pos0 + 1)"
  have pos': "skip_whitespace content (Suc pos0) = pos" by (simp add: pos_def)
  note IH = "2.IH"[OF refl refl pos_def]
  from "2.prems" consider
      (empty) "v = set_json [] Null Null"
    | (loop) "\<not> (pos < length content \<and> content ! pos = CHR ''}'')"
        "parse_object_loop fp content pos (set_json [] Null Null) = Inr (v, q)"
    by (subst (asm) parse_object.simps)
       (auto simp: Let_def pos' split: if_splits)
  then show ?case
  proof cases
    case empty then show ?thesis using obj0 obj_done by simp
  next
    case loop then show ?thesis using IH obj0 by blast
  qed
next
  case (3 fp content pos0 obj)
  show ?case
  proof (cases "pos0 < length content")
    case False
    with "3.prems" show ?thesis
      by (subst (asm) parse_object_loop.simps) (simp add: obj_done)
  next
    case True
    define pos1 where "pos1 = skip_whitespace content pos0"
    from "3.prems"(1) True obtain key pos2 where
      ps: "parse_string content pos1 = Inr (key, pos2)" and q: "\<not> char_at content pos1 \<noteq> CHR 0x22"
      by (subst (asm) parse_object_loop.simps)
         (auto simp: Let_def pos1_def[symmetric] split: if_splits sum.splits)
    define pos3 where "pos3 = skip_whitespace content pos2"
    define pos4 where "pos4 = skip_whitespace content (pos3 + 1)"
    have pos4': "skip_whitespace content (Suc pos3) = pos4" by (simp add: pos4_def)
    from "3.prems"(1) True ps q obtain w pos5 where
      pv: "parse_value fp content pos4 = Inr (w, pos5)"
      and c: "\<not> (length content \<le> pos3 \<or> content ! pos3 \<noteq> CHR '':'')"
      by (subst (asm) parse_object_loop.simps)
         (auto simp: Let_def pos1_def[symmetric] pos3_def[symmetric] pos4' split: if_splits sum.splits)
    define pos6 where "pos6 = skip_whitespace content pos5"
    have Pw: "P content w"
      using "3.IH"(1)[OF True pos1_def q ps refl pos3_def c refl pos4_def pv] .
    have kr: "key_read content key"
    proof -
      have "char_at content pos1 = CHR 0x22" using q by simp
      moreover have "char_at content (skip_whitespace content pos2) = CHR '':''"
        using c by (simp add: char_at_def pos3_def)
      ultimately show ?thesis unfolding key_read_def using ps by blast
    qed
    have Q': "Q content (set_json key w obj)" using obj_step[OF "3.prems"(2) Pw kr] .
    from "3.prems"(1) True ps q c pv consider
        (close) "v = set_json key w obj"
      | (more) "\<not> length content \<le> pos6" "content ! pos6 \<noteq> CHR ''}''" "content ! pos6 = CHR '',''"
          "parse_object_loop fp content (pos6 + 1) (set_json key w obj) = Inr (v, q)"
      by (subst (asm) parse_object_loop.simps)
         (auto simp: Let_def pos1_def[symmetric] pos3_def[symmetric] pos4' pos6_def[symmetric]
               split: if_splits)
    then show ?thesis
    proof cases
      case close then show ?thesis using Q' obj_done by simp
    next
      case more
      show ?thesis
        using "3.IH"(2)[OF True pos1_def q ps refl pos3_def c refl pos4_def pv refl refl pos6_def
            more(1,2,3) more(4) Q'] .
    qed
  qed
next
  case (4 fp content pos0)
  define pos where "pos = skip_whitespace content (pos0 + 1)"
  have pos': "skip_whitespace content (Suc pos0) = pos" by (simp add: pos_def)
  note IH = "4.IH"[OF refl refl pos_def]
  from "4.prems" consider
      (empty) "v = Null"
    | (loop) "\<not> (pos < length content \<and> content ! pos = CHR '']'')"
        "parse_array_loop fp content pos Null = Inr (v, q)"
    by (subst (asm) parse_array.simps)
       (auto simp: Let_def pos' split: if_splits)
  then show ?case
  proof cases
    case empty then show ?thesis using scalar by simp
  next
    case loop then show ?thesis using IH arr0 by blast
  qed
next
  case (5 fp content pos0 arr)
  show ?case
  proof (cases "pos0 < length content")
    case False
    with "5.prems" show ?thesis
      by (subst (asm) parse_array_loop.simps) (simp add: arr_done)
  next
    case True
    define pos1 where "pos1 = skip_whitespace content pos0"
    from "5.prems"(1) True obtain w pos5 where
      pv: "parse_value fp content pos1 = Inr (w, pos5)"
      by (subst (asm) parse_array_loop.simps)
         (auto simp: Let_def pos1_def[symmetric] split: if_splits sum.splits)
    define pos6 where "pos6 = skip_whitespace content pos5"
    have Pw: "P content w" using "5.IH"(1)[OF True pos1_def pv] .
    have A': "A content (push_back w arr)" using arr_step[OF "5.prems"(2) Pw] .
    from "5.prems"(1) True pv consider
        (close) "v = push_back w arr"
      | (more) "\<not> length content \<le> pos6" "content ! pos6 \<noteq> CHR '']''" "content ! pos6 = CHR '',''"
          "parse_array_loop fp content (pos6 + 1) (push_back w arr) = Inr (v, q)"
      by (subst (asm) parse_array_loop.simps)
         (auto simp: Let_def pos1_def[symmetric] pos6_def[symmetric] split: if_splits)
    then show ?thesis
    proof cases
      case close then show ?thesis using A' arr_done by simp
    next
      case more
      show ?thesis
        using "5.IH"(2)[OF True pos1_def pv refl refl pos6_def more(1,2,3) more(4) A'] .
    qed
  qed
qed



lemma set_map_assign: "set (map_assign k v m) \<subseteq> insert (k, v) (set m)"
  by (induction m) (auto split: if_splits)



section \<open>The serialiser's output\<close>

text \<open>
  The loop of \<open>value_to_string\<close> with its flag \<open>first\<close> writes the items one after
  the other, with the separator before every item but the first.
\<close>

fun emit :: "bool \<Rightarrow> string \<Rightarrow> string list \<Rightarrow> string" where
  "emit first sep [] = []"
| "emit first sep (x # xs) = (if first then [] else sep) @ x @ emit False sep xs"

lemma foldl_emit:
  "foldl (\<lambda>acc x. case acc of (result, first) \<Rightarrow>
            (result @ (if \<not> first then sep else []) @ f x, False)) (r, b) xs
     = (r @ emit b sep (map f xs), b \<and> xs = [])"
  by (induction xs arbitrary: r b) auto

definition newline_of :: "bool \<Rightarrow> string" where
  "newline_of pretty_print = (if pretty_print then [CHR 0x0A] else [])"

definition indent_of :: "bool \<Rightarrow> nat \<Rightarrow> string" where
  "indent_of pretty_print indent = (if pretty_print then replicate (indent * 2) CHR '' '' else [])"

definition pad_of :: "bool \<Rightarrow> string" where
  "pad_of pretty_print = (if pretty_print then ''  '' else [])"

lemma value_to_string_scalar:
  "value_to_string fp Null indent pp = ''null''"
  "value_to_string fp (Boolean b) indent pp = (if b then ''true'' else ''false'')"
  "value_to_string fp (Integer i) indent pp = to_string_int i"
  "value_to_string fp (Number d) indent pp = to_string_double fp d"
  "value_to_string fp (String s) indent pp = [CHR 0x22] @ s @ [CHR 0x22]"
  by (subst value_to_string.simps, simp add: Let_def)+

lemma value_to_string_Object_keys:
  "value_to_string fp (Object m) indent pp =
     ''{'' @ newline_of pp
     @ emit True ('','' @ newline_of pp)
         (map (\<lambda>key. indent_of pp indent @ pad_of pp @ [CHR 0x22] @ key @ [CHR 0x22] @ '': ''
                   @ value_to_string fp (get (Object m) key) (indent + 1) pp) (map fst m))
     @ newline_of pp @ indent_of pp indent @ ''}''"
  by (subst value_to_string.simps)
     (simp add: Let_def foldl_emit newline_of_def indent_of_def pad_of_def o_def
        del: get.simps)

lemma value_to_string_Array:
  "value_to_string fp (Array xs) indent pp =
     ''['' @ newline_of pp
     @ emit True ('','' @ newline_of pp)
         (map (\<lambda>x. indent_of pp indent @ pad_of pp @ value_to_string fp x (indent + 1) pp) xs)
     @ newline_of pp @ indent_of pp indent @ '']''"
proof -
  have "map (\<lambda>i. indent_of pp indent @ pad_of pp
                @ value_to_string fp (at_json (Array xs) i) (indent + 1) pp) [0 ..< length xs]
        = map (\<lambda>x. indent_of pp indent @ pad_of pp @ value_to_string fp x (indent + 1) pp) xs"
    by (rule nth_equalityI) auto
  then show ?thesis
    by (subst value_to_string.simps)
       (simp add: Let_def foldl_emit newline_of_def indent_of_def pad_of_def o_def
          del: at_json.simps)
qed

lemma map_get_distinct:
  "distinct (map fst m) \<Longrightarrow>
     map (\<lambda>key. F key (get (Object m) key)) (map fst m) = map (\<lambda>(k, v). F k v) m"
  by (auto simp: map_of_eq_Some_iff[THEN iffD2] split: prod.splits)

lemma value_to_string_Object:
  assumes "distinct (map fst m)"
  shows "value_to_string fp (Object m) indent pp =
     ''{'' @ newline_of pp
     @ emit True ('','' @ newline_of pp)
         (map (\<lambda>(key, v). indent_of pp indent @ pad_of pp @ [CHR 0x22] @ key @ [CHR 0x22] @ '': ''
                   @ value_to_string fp v (indent + 1) pp) m)
     @ newline_of pp @ indent_of pp indent @ ''}''"
  by (subst value_to_string_Object_keys,
      subst map_get_distinct[OF assms, where F = "\<lambda>key v. indent_of pp indent @ pad_of pp
         @ [CHR 0x22] @ key @ [CHR 0x22] @ '': '' @ value_to_string fp v (indent + 1) pp"])
     (rule refl)

section \<open>Objects of a parsed tree\<close>



section \<open>Well-formed values and the compact output\<close>

text \<open>
  The values the class can hold: \<open>set\<close> and \<open>push_back\<close> are the only mutators and
  both add a child, and a \<open>std::map\<close> keeps its keys distinct and in increasing order. So
  an Object has at least one member and strictly increasing keys, and an Array has at
  least one element.
\<close>

fun well_formed :: "'d JSONValue \<Rightarrow> bool" where
  "well_formed (Object m) =
     (m \<noteq> [] \<and> sorted_wrt (<) (map fst m) \<and> (\<forall>kv\<in>set m. well_formed (snd kv)))"
| "well_formed (Array xs) = (xs \<noteq> [] \<and> (\<forall>x\<in>set xs. well_formed x))"
| "well_formed _ = True"

lemma digit_char_isdigit: "n < 10 \<Longrightarrow> isdigit (digit_char n)"
proof -
  assume "n < 10"
  then have "n \<in> {0, 1, 2, 3, 4, 5, 6, 7, 8, 9}" by auto
  then show ?thesis by (auto simp: isdigit_def digit_char_def)
qed

lemma digits_isdigit: "\<forall>c\<in>set (digits n). isdigit c"
proof (induction n rule: digits.induct)
  case (1 n)
  show ?case
  proof (cases "n < 10")
    case True
    then show ?thesis by (subst digits.simps) (simp add: digit_char_isdigit)
  next
    case False
    then show ?thesis
      using "1.IH" by (subst digits.simps) (auto simp: digit_char_isdigit)
  qed
qed

lemma sorted_keys_distinct: "sorted_wrt (<) (ks :: string list) \<Longrightarrow> distinct ks"
  using strict_sorted_iff by blast

lemma map_assign_less:
  "\<forall>kv\<in>set m. j < fst kv \<Longrightarrow> j < k \<Longrightarrow> \<forall>kv\<in>set (map_assign k v m). j < fst kv"
  using set_map_assign[of k v m] by fastforce

lemma sorted_map_assign:
  "sorted_wrt (<) (map fst m) \<Longrightarrow> sorted_wrt (<) (map fst (map_assign k v m))"
proof (induction m)
  case Nil
  show ?case by simp
next
  case (Cons a m)
  obtain k' v' where a: "a = (k', v')" by (cases a)
  from Cons.prems have s: "sorted_wrt (<) (map fst m)" and l: "\<forall>kv\<in>set m. k' < fst kv"
    by (auto simp: a)
  show ?case
  proof (cases "k = k'")
    case True
    with Cons.prems show ?thesis by (simp add: a)
  next
    case ne: False
    show ?thesis
    proof (cases "k < k'")
      case True
      with Cons.prems ne l show ?thesis by (auto simp: a)
    next
      case False
      with ne have "k' < k" by simp
      with map_assign_less[OF l this, of v] Cons.IH[OF s] ne False show ?thesis
        by (simp add: a)
    qed
  qed
qed

lemma well_formed_set_json:
  assumes "well_formed obj" "well_formed v" "\<exists>m. obj = Object m"
  shows "well_formed (set_json key v obj)"
proof -
  from assms(3) obtain m where m: "obj = Object m" by blast
  have "well_formed (snd kv)" if "kv \<in> set (map_assign key v m)" for kv
    using that set_map_assign[of key v m] assms(1,2) m by auto
  moreover have "map_assign key v m \<noteq> []" by (cases m) (auto split: if_splits)
  ultimately show ?thesis
    using assms(1) by (simp add: m sorted_map_assign)
qed

text \<open>Every value the parser returns is well formed.\<close>

lemma parsed_well_formed:
  assumes "parse_value fp content pos = Inr (v, q)"
  shows "well_formed v"
proof -
  let ?P = "\<lambda>(c :: string) (v :: 'd JSONValue). well_formed v"
  let ?Q = "\<lambda>(c :: string) (v :: 'd JSONValue). well_formed v \<and> (\<exists>m. v = Object m)"
  let ?A = "\<lambda>(c :: string) (v :: 'd JSONValue). well_formed v \<and> (v = Null \<or> (\<exists>xs. v = Array xs))"
  show ?thesis
  proof (rule parse_invariant(1)[where P = ?P and Q = ?Q and A = ?A, OF _ _ _ _ _ _ _ _ _ _ _ assms],
      goal_cases)
    case (7 c key v obj)
    then show ?case using well_formed_set_json[of obj v key] by auto
  qed auto
qed

section \<open>Maps and simple paths\<close>

lemma map_of_map_assign: "map_of (map_assign k v m) = (map_of m)(k \<mapsto> v)"
  by (induction m) (auto simp: fun_eq_iff)

lemma keys_map_assign: "set (map fst (map_assign k v m)) = insert k (set (map fst m))"
  by (induction m) (force split: if_splits)+

lemma foldl_set_json:
  "\<exists>m'. foldl (\<lambda>obj kv. set_json (fst kv) (snd kv) obj) (Object m) kvs = Object m'
      \<and> map_of m' = map_of m ++ map_of (rev kvs)
      \<and> set (map fst m') = set (map fst m) \<union> set (map fst kvs)"
proof (induction kvs arbitrary: m)
  case Nil
  show ?case by simp
next
  case (Cons kv kvs)
  from Cons.IH[of "map_assign (fst kv) (snd kv) m"] obtain m' where
    m': "foldl (\<lambda>obj kv. set_json (fst kv) (snd kv) obj) (Object (map_assign (fst kv) (snd kv) m)) kvs
           = Object m'"
      "map_of m' = map_of (map_assign (fst kv) (snd kv) m) ++ map_of (rev kvs)"
      "set (map fst m') = set (map fst (map_assign (fst kv) (snd kv) m)) \<union> set (map fst kvs)"
    by blast
  have "map_of m' = map_of m ++ map_of (rev (kv # kvs))"
    unfolding m'(2) map_of_map_assign
    by (cases kv) (simp add: map_add_upd_left fun_eq_iff map_add_def split: option.splits)
  moreover have "set (map fst m') = set (map fst m) \<union> set (map fst (kv # kvs))"
    unfolding m'(3) keys_map_assign by auto
  ultimately show ?case using m'(1) by simp
qed

lemma spec_segments_simple:
  assumes "k \<noteq> []" "CHR ''.'' \<notin> set k"
  shows "spec_segments k = [k]"
proof -
  have tw: "takeWhile (\<lambda>c. c \<noteq> CHR ''.'') k = k" "dropWhile (\<lambda>c. c \<noteq> CHR ''.'') k = []"
    using assms(2) by (auto simp: takeWhile_eq_all_conv)
  have "spec_split k = [k]" by (subst spec_split_first) (simp add: tw)
  then show ?thesis using assms(1) by (simp add: spec_segments_def)
qed

lemma get_value_simple_key:
  assumes "k \<noteq> []" "CHR ''.'' \<notin> set k"
  shows "get_value \<lparr>success = s, error_message = e, root = Object m\<rparr> k
           = (case map_of m k of Some v \<Rightarrow> v | None \<Rightarrow> Null)"
  using get_value_segments[of "\<lparr>success = s, error_message = e, root = Object m\<rparr>" k]
  by (cases "map_of m k"; cases "the (map_of m k)") (simp_all add: spec_segments_simple[OF assms] Let_def)

section \<open>Reading back the compact output\<close>

text \<open>\<open>at_text content pos s\<close>: the text \<open>s\<close> stands in the input at position \<open>pos\<close>.\<close>

fun at_text :: "string \<Rightarrow> nat \<Rightarrow> string \<Rightarrow> bool" where
  "at_text content pos [] = True"
| "at_text content pos (c # s) =
     (pos < length content \<and> content ! pos = c \<and> at_text content (pos + 1) s)"

lemma at_text_append:
  "at_text content pos (s @ t) = (at_text content pos s \<and> at_text content (pos + length s) t)"
  by (induction s arbitrary: pos) auto

lemma at_text_self: "at_text (pre @ s @ rest) (length pre) s"
proof (induction s arbitrary: pre)
  case Nil
  show ?case by simp
next
  case (Cons c s)
  from Cons[of "pre @ [c]"] show ?case by (simp add: nth_append)
qed

lemma at_text_whole: "at_text s 0 s"
  using at_text_self[of "[]" s "[]"] by simp

lemma at_text_char_at: "at_text content pos (c # s) \<Longrightarrow> char_at content pos = c"
  by (simp add: char_at_def)

lemma at_text_length: "at_text content pos s \<Longrightarrow> s \<noteq> [] \<Longrightarrow> pos + length s \<le> length content"
  by (induction s arbitrary: pos) (auto, force)

lemma substr_at_text: "at_text content pos s \<Longrightarrow> substr content pos (length s) = s"
proof (induction s arbitrary: pos)
  case Nil
  show ?case by (simp add: substr_def)
next
  case (Cons c s)
  then have "pos < length content" "content ! pos = c" "substr content (pos + 1) (length s) = s"
    by auto
  then show ?case
    by (simp add: substr_def Cons_nth_drop_Suc[symmetric])
qed

lemma skip_whitespace_stay: "\<not> isspace (char_at content pos) \<Longrightarrow> skip_whitespace content pos = pos"
  by (subst skip_whitespace.simps) (auto simp: char_at_def)

lemma skip_whitespace_space:
  "at_text content pos '' '' \<Longrightarrow> \<not> isspace (char_at content (pos + 1)) \<Longrightarrow>
     skip_whitespace content pos = pos + 1"
  by (subst skip_whitespace.simps) (simp add: isspace_def skip_whitespace_stay)

lemma skip_digits_run:
  "at_text content pos ds \<Longrightarrow> \<forall>c\<in>set ds. isdigit c \<Longrightarrow>
     \<not> isdigit (char_at content (pos + length ds)) \<Longrightarrow>
     skip_digits content pos = pos + length ds"
proof (induction ds arbitrary: pos)
  case Nil
  then show ?case by (subst skip_digits.simps) (auto simp: char_at_def)
next
  case (Cons c ds)
  from Cons.prems have "skip_digits content (pos + 1) = pos + 1 + length ds"
    by (intro Cons.IH) auto
  with Cons.prems show ?case by (subst skip_digits.simps) simp
qed

text \<open>
  A string is plain when it has no double quote and no backslash: the serialiser writes
  a string as it is between two quotes, and these are the two characters
  \<open>parse_string\<close> does not read as themselves.
\<close>

definition plain :: "string \<Rightarrow> bool" where
  "plain s = (CHR 0x22 \<notin> set s \<and> CHR 0x5C \<notin> set s)"

lemma parse_string_loop_plain:
  "at_text content pos (s @ [CHR 0x22]) \<Longrightarrow> plain s \<Longrightarrow>
     parse_string_loop content pos acc = Inr (acc @ s, pos + length s + 1)"
proof (induction s arbitrary: pos acc)
  case Nil
  then show ?case by (subst parse_string_loop.simps) (simp add: Let_def)
next
  case (Cons c s)
  from Cons.prems have "parse_string_loop content (pos + 1) (acc @ [c])
      = Inr ((acc @ [c]) @ s, pos + 1 + length s + 1)"
    by (intro Cons.IH) (auto simp: plain_def)
  with Cons.prems show ?case
    by (subst parse_string_loop.simps) (auto simp: Let_def plain_def)
qed

lemma parse_string_plain:
  "at_text content pos ([CHR 0x22] @ s @ [CHR 0x22]) \<Longrightarrow> plain s \<Longrightarrow>
     parse_string content pos = Inr (s, pos + length s + 2)"
  using parse_string_loop_plain[of content "pos + 1" s "[]"]
  by (simp add: parse_string_def char_at_def)

text \<open>\<open>std::stoi\<close> reads back what \<open>std::to_string(int)\<close> prints.\<close>

lemma decimal_value_snoc: "decimal_value (xs @ [c]) = 10 * decimal_value xs + digit_value c"
  by (simp add: decimal_value_def)

lemma digit_value_digit_char: "k < 10 \<Longrightarrow> digit_value (digit_char k) = k"
proof -
  assume "k < 10"
  then have "k \<in> {0, 1, 2, 3, 4, 5, 6, 7, 8, 9}" by auto
  then show ?thesis by (auto simp: digit_value_def digit_char_def)
qed

lemma decimal_value_digits: "decimal_value (digits n) = n"
proof (induction n rule: digits.induct)
  case (1 n)
  show ?case
  proof (cases "n < 10")
    case True
    then show ?thesis
      by (subst digits.simps) (simp add: decimal_value_def digit_value_digit_char)
  next
    case False
    then show ?thesis
      using "1.IH" by (subst digits.simps) (simp add: decimal_value_snoc digit_value_digit_char)
  qed
qed

lemma digits_not_Nil: "digits n \<noteq> []"
  by (subst digits.simps) simp

lemma isdigit_not_other:
  "isdigit c \<Longrightarrow> \<not> isspace c \<and> c \<noteq> CHR ''-'' \<and> c \<noteq> CHR ''+'' \<and> c \<noteq> CHR ''.''
     \<and> c \<noteq> CHR ''e'' \<and> c \<noteq> CHR ''E''"
  by (auto simp: isdigit_def isspace_def)

lemma stoi_to_string_int: "stoi (to_string_int i) = Some i"
proof -
  define n where "n = nat \<bar>sint i\<bar>"
  obtain d ds where ds: "digits n = d # ds" using digits_not_Nil[of n] by (cases "digits n") auto
  have all: "\<forall>c\<in>set (digits n). isdigit c" by (rule digits_isdigit)
  then have d: "isdigit d" by (simp add: ds)
  note dn = isdigit_not_other[OF d]
  have tw: "takeWhile isdigit (digits n) = digits n" using all by (simp add: takeWhile_eq_all_conv)
  have range: "- (2 ^ 31) \<le> sint i" "sint i < 2 ^ 31"
    using sint_ge[of i] sint_lt[of i] by simp_all
  have val: "decimal_value (digits n) = n" by (rule decimal_value_digits)
  have "stoi (to_string_int i) = Some (word_of_int (sint i))"
  proof (cases "sint i < 0")
    case True
    then have s: "to_string_int i = CHR ''-'' # digits n"
      by (simp add: to_string_int_def n_def Let_def)
    have n: "- int n = sint i" using True by (simp add: n_def)
    have "\<not> (- int n < - (2 ^ 31) \<or> 2 ^ 31 - 1 < - int n)"
      using range unfolding n by simp
    then show ?thesis
      unfolding s stoi_def Let_def
      by (simp add: isspace_def tw val digits_not_Nil n del: of_int_sint)
  next
    case False
    then have s: "to_string_int i = digits n"
      by (simp add: to_string_int_def n_def Let_def)
    have n: "int n = sint i" using False by (simp add: n_def)
    have "\<not> (int n < - (2 ^ 31) \<or> 2 ^ 31 - 1 < int n)"
      using range unfolding n by simp
    moreover have "dropWhile isspace (digits n) = digits n" using dn by (simp add: ds)
    moreover have "hd (digits n) \<noteq> CHR ''-''" "hd (digits n) \<noteq> CHR ''+''"
      using dn by (simp_all add: ds)
    ultimately show ?thesis
      unfolding s stoi_def Let_def
      by (simp add: tw val digits_not_Nil n del: of_int_sint)
  qed
  then show ?thesis by simp
qed

lemma char_at_neq: "char_at content p \<noteq> c \<Longrightarrow> \<not> (p < length content \<and> content ! p = c)"
  by (auto simp: char_at_def)

lemma number_end_shape:
  assumes at: "at_text content pos (sg @ ip @ fr)"
    and sg: "sg = [] \<or> sg = ''-''"
    and ip: "ip \<noteq> []" "\<forall>c\<in>set ip. isdigit c"
    and fr: "fr = [] \<or> (\<exists>fd. fr = CHR ''.'' # fd \<and> (\<forall>c\<in>set fd. isdigit c))"
    and follow: "\<not> isdigit (char_at content (pos + length (sg @ ip @ fr)))"
      "char_at content (pos + length (sg @ ip @ fr)) \<noteq> CHR ''.''"
      "char_at content (pos + length (sg @ ip @ fr)) \<noteq> CHR ''e''"
      "char_at content (pos + length (sg @ ip @ fr)) \<noteq> CHR ''E''"
  shows "number_end content pos = pos + length (sg @ ip @ fr)"
proof -
  define p1 where "p1 = pos + length sg"
  define p2 where "p2 = p1 + length ip"
  define p3 where "p3 = p2 + length fr"
  have p3: "p3 = pos + length (sg @ ip @ fr)" by (simp add: p1_def p2_def p3_def)
  from at have a1: "at_text content pos sg" and a2: "at_text content p1 ip"
    and a3: "at_text content p2 fr"
    by (simp_all add: at_text_append p1_def p2_def)
  have fl: "\<not> isdigit (char_at content p3)" "char_at content p3 \<noteq> CHR ''.''"
    "char_at content p3 \<noteq> CHR ''e''" "char_at content p3 \<noteq> CHR ''E''"
    using follow unfolding p3 by simp_all
  obtain d ds where ipc: "ip = d # ds" using ip(1) by (cases ip) auto
  have d: "isdigit d" using ip(2) by (simp add: ipc)
  have s1: "(if char_at content pos = CHR ''-'' then pos + 1 else pos) = p1"
  proof (cases "sg = []")
    case True
    with a2 have "char_at content pos = d" by (simp add: p1_def ipc char_at_def)
    with isdigit_not_other[OF d] True show ?thesis by (simp add: p1_def)
  next
    case False
    with sg have "sg = ''-''" by simp
    with a1 show ?thesis by (simp add: p1_def char_at_def)
  qed
  have nd: "\<not> isdigit (char_at content p2)"
  proof (cases "fr = []")
    case True
    with fl(1) show ?thesis by (simp add: p3_def)
  next
    case False
    with fr obtain fd where "fr = CHR ''.'' # fd" by auto
    with a3 have "char_at content p2 = CHR ''.''" by (simp add: char_at_def)
    then show ?thesis by (simp add: isdigit_def)
  qed
  have s2: "skip_digits content p1 = p2"
    using skip_digits_run[OF a2 ip(2)] nd by (simp add: p2_def)
  have s3: "(if p2 < length content \<and> content ! p2 = CHR ''.''
              then skip_digits content (p2 + 1) else p2) = p3"
  proof (cases "fr = []")
    case True
    with fl(2) have "char_at content p2 \<noteq> CHR ''.''" by (simp add: p3_def)
    from char_at_neq[OF this] True show ?thesis by (auto simp: p3_def)
  next
    case False
    with fr obtain fd where f: "fr = CHR ''.'' # fd" "\<forall>c\<in>set fd. isdigit c" by auto
    with a3 have dot: "p2 < length content" "content ! p2 = CHR ''.''"
      and a4: "at_text content (p2 + 1) fd" by simp_all
    have "\<not> isdigit (char_at content (p2 + 1 + length fd))"
      using fl(1) by (simp add: p3_def f)
    from skip_digits_run[OF a4 f(2) this] dot show ?thesis by (simp add: p3_def f)
  qed
  have s4: "\<not> (p3 < length content \<and> (content ! p3 = CHR ''e'' \<or> content ! p3 = CHR ''E''))"
    using char_at_neq[OF fl(3)] char_at_neq[OF fl(4)] by auto
  have "number_end content pos = p3"
    unfolding number_end_def Let_def s1 s2 s3 by (rule if_not_P[OF s4])
  then show ?thesis by (simp add: p3)
qed

text \<open>Without pretty-printing the indentation level plays no part in the output.\<close>

lemma value_to_string_indent:
  "value_to_string fp v indent False = value_to_string fp v 0 False"
proof (induction v arbitrary: indent)
  case (Array xs)
  have eq: "map (\<lambda>x. indent_of False indent @ pad_of False @ value_to_string fp x (indent + 1) False) xs
      = map (\<lambda>x. indent_of False 0 @ pad_of False @ value_to_string fp x (0 + 1) False) xs"
    using Array[of _ "indent + 1"] Array[of _ "0 + 1"]
    by (intro map_cong) (auto simp: indent_of_def)
  show ?case
    unfolding value_to_string_Array eq by (simp add: indent_of_def)
next
  case (Object m)
  have g: "value_to_string fp (get (Object m) key) i False
         = value_to_string fp (get (Object m) key) 0 False" for key i
  proof (cases "map_of m key")
    case None
    then show ?thesis by (simp add: value_to_string_scalar)
  next
    case (Some w)
    then have "(key, w) \<in> set m" by (rule map_of_SomeD)
    from Object[OF this, of w i] Some show ?thesis by simp
  qed
  have eq: "map (\<lambda>key. indent_of False indent @ pad_of False @ [CHR 0x22] @ key @ [CHR 0x22] @ '': ''
                   @ value_to_string fp (get (Object m) key) (indent + 1) False) (map fst m)
      = map (\<lambda>key. indent_of False 0 @ pad_of False @ [CHR 0x22] @ key @ [CHR 0x22] @ '': ''
                   @ value_to_string fp (get (Object m) key) (0 + 1) False) (map fst m)"
    using g[of _ "indent + 1"] g[of _ "0 + 1"]
    by (intro map_cong) (auto simp: indent_of_def)
  show ?case
    unfolding value_to_string_Object_keys eq by (simp add: indent_of_def)
qed (simp_all add: value_to_string_scalar)

definition compact_text :: "'d float_ops \<Rightarrow> 'd JSONValue \<Rightarrow> string" where
  "compact_text fp v = value_to_string fp v 0 False"

lemma compact_text_scalar:
  "compact_text fp Null = ''null''"
  "compact_text fp (Boolean b) = (if b then ''true'' else ''false'')"
  "compact_text fp (Integer i) = to_string_int i"
  "compact_text fp (Number d) = to_string_double fp d"
  "compact_text fp (String s) = [CHR 0x22] @ s @ [CHR 0x22]"
  by (simp_all add: compact_text_def value_to_string_scalar)

lemma compact_text_Array:
  "compact_text fp (Array xs) = ''['' @ emit True '','' (map (compact_text fp) xs) @ '']''"
  unfolding compact_text_def value_to_string_Array
  by (simp add: newline_of_def indent_of_def pad_of_def value_to_string_indent[of fp _ "Suc 0"])

lemma compact_text_Object:
  assumes "distinct (map fst m)"
  shows "compact_text fp (Object m) =
     ''{'' @ emit True '','' (map (\<lambda>kv. [CHR 0x22] @ fst kv @ [CHR 0x22] @ '': '' @ compact_text fp (snd kv)) m)
     @ ''}''"
  unfolding compact_text_def value_to_string_Object[OF assms]
  by (simp add: newline_of_def indent_of_def pad_of_def value_to_string_indent[of fp _ "Suc 0"]
        case_prod_unfold)

lemma to_string_compact: "to_string fp r False = compact_text fp (root r)"
  by (simp add: to_string_def compact_text_def)

text \<open>
  What the round trip needs of a value. \<open>fixed_notation\<close> is the shape of
  \<open>std::to_string(double)\<close> for a finite number: an optional minus sign, digits, a point
  and digits. A value is \<open>printable\<close> when its strings and keys are plain and every
  Number prints in that shape to a text that \<open>std::stod\<close> converts back to the same
  number. \<open>with_empty_keys\<close> is the value with the member \<open>"": null\<close> added to every
  Object that has no key \<open>""\<close>, which is what \<open>parse_object\<close> builds. \<open>follows\<close> are the
  characters that can stand after a value in the compact output, \<open>'\0'\<close> standing for
  the end of the text.
\<close>

definition fixed_notation :: "string \<Rightarrow> bool" where
  "fixed_notation s =
     (let t = (if s \<noteq> [] \<and> hd s = CHR ''-'' then tl s else s);
          ip = takeWhile isdigit t;
          r = dropWhile isdigit t
      in ip \<noteq> [] \<and> r \<noteq> [] \<and> hd r = CHR ''.'' \<and> list_all isdigit (tl r))"

fun printable :: "'d float_ops \<Rightarrow> 'd JSONValue \<Rightarrow> bool" where
  "printable fp (String s) = plain s"
| "printable fp (Number d) =
     (fixed_notation (to_string_double fp d) \<and> stod fp (to_string_double fp d) = Some d)"
| "printable fp (Array xs) = (\<forall>x\<in>set xs. printable fp x)"
| "printable fp (Object m) = (\<forall>kv\<in>set m. plain (fst kv) \<and> printable fp (snd kv))"
| "printable fp _ = True"

fun with_empty_keys :: "'d JSONValue \<Rightarrow> 'd JSONValue" where
  "with_empty_keys (Object m) =
     Object ((if [] \<in> set (map fst m) then [] else [([], Null)])
             @ map (\<lambda>kv. (fst kv, with_empty_keys (snd kv))) m)"
| "with_empty_keys (Array xs) = Array (map with_empty_keys xs)"
| "with_empty_keys v = v"

definition follows :: "char \<Rightarrow> bool" where
  "follows c = (c = CHR '','' \<or> c = CHR '']'' \<or> c = CHR ''}'' \<or> c = CHR 0x00)"

lemma follows_not:
  "follows c \<Longrightarrow> \<not> isspace c \<and> \<not> isdigit c \<and> c \<noteq> CHR ''.'' \<and> c \<noteq> CHR ''e'' \<and> c \<noteq> CHR ''E''"
  by (auto simp: follows_def isspace_def isdigit_def)

lemma fixed_notation_shape:
  assumes "fixed_notation s"
  obtains sg ip fd where "s = sg @ ip @ CHR ''.'' # fd" "sg = [] \<or> sg = ''-''" "ip \<noteq> []"
    "\<forall>c\<in>set ip. isdigit c" "\<forall>c\<in>set fd. isdigit c"
proof -
  define sg where "sg = (if s \<noteq> [] \<and> hd s = CHR ''-'' then ''-'' else [])"
  define t where "t = (if s \<noteq> [] \<and> hd s = CHR ''-'' then tl s else s)"
  define ip where "ip = takeWhile isdigit t"
  define r where "r = dropWhile isdigit t"
  from assms have f: "ip \<noteq> []" "r \<noteq> []" "hd r = CHR ''.''" "list_all isdigit (tl r)"
    by (simp_all add: fixed_notation_def Let_def t_def ip_def r_def)
  have "s = sg @ t" by (cases s) (auto simp: sg_def t_def)
  moreover have "t = ip @ r" by (simp add: ip_def r_def)
  moreover have "r = CHR ''.'' # tl r" using f(2,3) by (cases r) auto
  ultimately have "s = sg @ ip @ CHR ''.'' # tl r" by simp
  moreover have "sg = [] \<or> sg = ''-''" by (simp add: sg_def)
  moreover have "\<forall>c\<in>set ip. isdigit c" unfolding ip_def by (auto dest: set_takeWhileD)
  moreover have "\<forall>c\<in>set (tl r). isdigit c" using f(4) by (simp add: list_all_iff)
  ultimately show ?thesis using f(1) that by blast
qed

lemma parse_value_dispatch:
  assumes "pos < length content" "\<not> isspace (content ! pos)"
  shows "parse_value fp content pos =
     (let c = content ! pos in
         if c = CHR ''{'' then parse_object fp content pos
         else if c = CHR ''['' then parse_array fp content pos
         else if c = CHR 0x22 then
           (case parse_string content pos of
              Inl e \<Rightarrow> Inl e
            | Inr (s, pos) \<Rightarrow> Inr (String s, pos))
         else if c = CHR ''t'' \<or> c = CHR ''f'' then
           (if substr content pos 4 = ''true'' then Inr (Boolean True, pos + 4)
            else if substr content pos 5 = ''false'' then Inr (Boolean False, pos + 5)
            else Inl (runtime_error ''Invalid boolean value''))
         else if c = CHR ''n'' then
           (if substr content pos 4 = ''null'' then Inr (Null, pos + 4)
            else Inl (runtime_error ''Invalid null value''))
         else if isdigit c \<or> c = CHR ''-'' then parse_number fp content pos
         else Inl (runtime_error (''Unexpected character: '' @ [c])))"
proof -
  have "skip_whitespace content pos = pos"
    using assms by (intro skip_whitespace_stay) (simp add: char_at_def)
  then show ?thesis
    using assms(1) by (subst parse_value.simps) (simp add: Let_def)
qed

lemma read_back_scalar:
  shows "at_text content pos ''null'' \<Longrightarrow> parse_value fp content pos = Inr (Null, pos + 4)"
    and "at_text content pos ''true'' \<Longrightarrow> parse_value fp content pos = Inr (Boolean True, pos + 4)"
    and "at_text content pos ''false'' \<Longrightarrow> parse_value fp content pos = Inr (Boolean False, pos + 5)"
proof -
  show "parse_value fp content pos = Inr (Null, pos + 4)" if a: "at_text content pos ''null''"
  proof -
    have "substr content pos 4 = ''null''"
      using substr_at_text[OF a] by (simp add: eval_nat_numeral)
    with a show ?thesis
      by (subst parse_value_dispatch) (simp_all add: isspace_def Let_def)
  qed
  show "parse_value fp content pos = Inr (Boolean True, pos + 4)" if a: "at_text content pos ''true''"
  proof -
    have "substr content pos 4 = ''true''"
      using substr_at_text[OF a] by (simp add: eval_nat_numeral)
    with a show ?thesis
      by (subst parse_value_dispatch) (simp_all add: isspace_def Let_def)
  qed
  show "parse_value fp content pos = Inr (Boolean False, pos + 5)" if a: "at_text content pos ''false''"
  proof -
    from a have b: "at_text content pos ''fals''" by simp
    have "substr content pos 4 = ''fals''" "substr content pos 5 = ''false''"
      using substr_at_text[OF a] substr_at_text[OF b] by (simp_all add: eval_nat_numeral)
    with a show ?thesis
      by (subst parse_value_dispatch) (simp_all add: isspace_def Let_def)
  qed
qed

lemma read_back_string:
  assumes "at_text content pos ([CHR 0x22] @ s @ [CHR 0x22])" "plain s"
  shows "parse_value fp content pos = Inr (String s, pos + length s + 2)"
  using assms(1) parse_string_plain[OF assms]
  by (subst parse_value_dispatch) (simp_all add: isspace_def Let_def)

lemma read_back_number_text:
  assumes at: "at_text content pos (sg @ ip @ fr)"
    and sg: "sg = [] \<or> sg = ''-''"
    and ip: "ip \<noteq> []" "\<forall>c\<in>set ip. isdigit c"
    and fr: "fr = [] \<or> (\<exists>fd. fr = CHR ''.'' # fd \<and> (\<forall>c\<in>set fd. isdigit c))"
    and follow: "follows (char_at content (pos + length (sg @ ip @ fr)))"
  shows "parse_value fp content pos = parse_number fp content pos"
    and "number_end content pos = pos + length (sg @ ip @ fr)"
    and "substr content pos (number_end content pos - pos) = sg @ ip @ fr"
proof -
  note fn = follows_not[OF follow]
  show ne: "number_end content pos = pos + length (sg @ ip @ fr)"
    using fn by (intro number_end_shape[OF at sg ip fr]) simp_all
  show "substr content pos (number_end content pos - pos) = sg @ ip @ fr"
    using substr_at_text[OF at] by (simp add: ne)
  obtain d ds where ipc: "ip = d # ds" using ip(1) by (cases ip) auto
  have d: "isdigit d" using ip(2) by (simp add: ipc)
  from at sg have c: "pos < length content" "content ! pos = CHR ''-'' \<or> content ! pos = d"
    by (auto simp: ipc)
  then have st: "isdigit (content ! pos) \<or> content ! pos = CHR ''-''" using d by auto
  note ns = number_start_not_other[OF st]
  show "parse_value fp content pos = parse_number fp content pos"
    using c(1) ns st by (subst parse_value_dispatch) (simp_all add: Let_def)
qed

section \<open>The grammar of the input\<close>

text \<open>
  The syntax that section 4.2 of the specification describes, as a syntax tree
  (\<open>literal\<close>) and a reader of trees. \<open>literal_end content i l\<close> is the position after
  the literal \<open>l\<close> when the text of \<open>content\<close> from position \<open>i\<close> is, after white space,
  the literal \<open>l\<close>, and \<open>None\<close> when it is not:
  \<^item> \<open>null\<close>, \<open>true\<close> and \<open>false\<close> are written so;
  \<^item> a string is the text between two double quotes, in which a backslash is followed
    by one of the eight recognised escape characters (\<open>string_body\<close>, on the text after
    the opening quote, gives the decoded string and the number of characters read);
  \<^item> a number starts with a digit or \<open>-\<close> and is the lexeme that ends at
    \<open>number_end\<close>: the sign, the digit run, a point with its digit run, an exponent
    with its sign and digit run, each run as long as the text allows and possibly empty;
  \<^item> an array is \<open>[\<close>, values separated by \<open>,\<close> and \<open>]\<close>; an object is \<open>{\<close>, members
    \<open>"key": value\<close> separated by \<open>,\<close> and \<open>}\<close>;
  \<^item> white space (\<open>std::isspace\<close>) may stand before every token.
\<close>

datatype literal =
    LNull
  | LBool bool
  | LNumber string
  | LString string
  | LArray "literal list"
  | LObject "(string \<times> literal) list"

definition after_blank :: "string \<Rightarrow> nat \<Rightarrow> nat" where
  "after_blank content i = i + length (takeWhile isspace (drop i content))"

definition recognised_escape :: "char \<Rightarrow> char option" where
  "recognised_escape =
     map_of [(CHR 0x22, CHR 0x22), (CHR 0x5C, CHR 0x5C), (CHR ''/'', CHR ''/''),
             (CHR ''b'', CHR 0x08), (CHR ''f'', CHR 0x0C), (CHR ''n'', CHR 0x0A),
             (CHR ''r'', CHR 0x0D), (CHR ''t'', CHR 0x09)]"

fun string_body :: "string \<Rightarrow> (string \<times> nat) option" where
  "string_body [] = None"
| "string_body (c # cs) =
     (if c = CHR 0x22 then Some ([], 1)
      else if c = CHR 0x5C then
        (case cs of
           [] \<Rightarrow> None
         | e # rest \<Rightarrow>
             (case recognised_escape e of
                None \<Rightarrow> None
              | Some x \<Rightarrow>
                  (case string_body rest of
                     None \<Rightarrow> None
                   | Some (s, n) \<Rightarrow> Some (x # s, n + 2))))
      else (case string_body cs of
              None \<Rightarrow> None
            | Some (s, n) \<Rightarrow> Some (c # s, n + 1)))"

definition quoted_end :: "string \<Rightarrow> nat \<Rightarrow> (string \<times> nat) option" where
  "quoted_end content p =
     (if char_at content p \<noteq> CHR 0x22 then None
      else (case string_body (drop (p + 1) content) of
              None \<Rightarrow> None
            | Some (s, n) \<Rightarrow> Some (s, p + 1 + n)))"

fun literal_end :: "string \<Rightarrow> nat \<Rightarrow> literal \<Rightarrow> nat option"
  and elements_end :: "string \<Rightarrow> nat \<Rightarrow> literal list \<Rightarrow> nat option"
  and members_end :: "string \<Rightarrow> nat \<Rightarrow> (string \<times> literal) list \<Rightarrow> nat option"
where
  "literal_end content i LNull =
     (let p = after_blank content i in
      if substr content p 4 = ''null'' then Some (p + 4) else None)"
| "literal_end content i (LBool b) =
     (let p = after_blank content i in
      if b then (if substr content p 4 = ''true'' then Some (p + 4) else None)
      else (if substr content p 5 = ''false'' then Some (p + 5) else None))"
| "literal_end content i (LNumber s) =
     (let p = after_blank content i in
      if (isdigit (char_at content p) \<or> char_at content p = CHR ''-'')
         \<and> substr content p (number_end content p - p) = s
      then Some (number_end content p) else None)"
| "literal_end content i (LString s) =
     (case quoted_end content (after_blank content i) of
        None \<Rightarrow> None
      | Some (s', j) \<Rightarrow> if s' = s then Some j else None)"
| "literal_end content i (LArray ls) =
     (let p = after_blank content i in
      if char_at content p \<noteq> CHR ''['' then None
      else if ls = [] then
        (let q = after_blank content (p + 1) in
         if char_at content q = CHR '']'' then Some (q + 1) else None)
      else elements_end content (p + 1) ls)"
| "literal_end content i (LObject ms) =
     (let p = after_blank content i in
      if char_at content p \<noteq> CHR ''{'' then None
      else if ms = [] then
        (let q = after_blank content (p + 1) in
         if char_at content q = CHR ''}'' then Some (q + 1) else None)
      else members_end content (p + 1) ms)"
| "elements_end content i [] = None"
| "elements_end content i (l # ls) =
     (case literal_end content i l of
        None \<Rightarrow> None
      | Some p \<Rightarrow>
          (let q = after_blank content p in
           if ls = [] then (if char_at content q = CHR '']'' then Some (q + 1) else None)
           else if char_at content q = CHR '','' then elements_end content (q + 1) ls
           else None))"
| "members_end content i [] = None"
| "members_end content i (m # ms) =
     (case quoted_end content (after_blank content i) of
        None \<Rightarrow> None
      | Some (key, p1) \<Rightarrow>
          (let p2 = after_blank content p1 in
           if key \<noteq> fst m \<or> char_at content p2 \<noteq> CHR '':'' then None
           else
             (case literal_end content (p2 + 1) (snd m) of
                None \<Rightarrow> None
              | Some p3 \<Rightarrow>
                  (let p4 = after_blank content p3 in
                   if ms = [] then (if char_at content p4 = CHR ''}'' then Some (p4 + 1) else None)
                   else if char_at content p4 = CHR '','' then members_end content (p4 + 1) ms
                   else None))))"

text \<open>
  The value a literal stands for: what the parser builds from it with \<open>set\<close> and
  \<open>push_back\<close>, the members and elements taken in the order written. A number lexeme
  with \<open>.\<close>, \<open>e\<close> or \<open>E\<close> is converted by \<open>std::stod\<close>, any other by \<open>std::stoi\<close>
  (a lexeme that does not convert has no value; the parser fails on it, see
  \<open>first_bad\<close> below).
\<close>

definition floating :: "string \<Rightarrow> bool" where
  "floating s = (CHR ''.'' \<in> set s \<or> CHR ''e'' \<in> set s \<or> CHR ''E'' \<in> set s)"

fun value_of :: "'d float_ops \<Rightarrow> literal \<Rightarrow> 'd JSONValue" where
  "value_of fp LNull = Null"
| "value_of fp (LBool b) = Boolean b"
| "value_of fp (LNumber s) =
     (if floating s then (case stod fp s of Some d \<Rightarrow> Number d | None \<Rightarrow> Null)
      else (case stoi s of Some i \<Rightarrow> Integer i | None \<Rightarrow> Null))"
| "value_of fp (LString s) = String s"
| "value_of fp (LArray ls) = foldl (\<lambda>arr l. push_back (value_of fp l) arr) Null ls"
| "value_of fp (LObject ms) =
     foldl (\<lambda>obj m. set_json (fst m) (value_of fp (snd m)) obj) (set_json [] Null Null) ms"

text \<open>The scanners of the parser and those of the grammar agree.\<close>

lemma takeWhile_dropWhile_Nil: "takeWhile P (dropWhile P xs) = []"
  by (induction xs) auto

lemma after_blank_idem: "after_blank content (after_blank content i) = after_blank content i"
proof -
  have "drop (i + length (takeWhile isspace (drop i content))) content
      = drop (length (takeWhile isspace (drop i content))) (drop i content)"
    by (simp add: add.commute)
  also have "\<dots> = dropWhile isspace (drop i content)"
    by (simp add: dropWhile_eq_drop)
  finally show ?thesis by (simp add: after_blank_def takeWhile_dropWhile_Nil)
qed

lemma skip_whitespace_after_blank: "skip_whitespace content i = after_blank content i"
proof (induction content i rule: skip_whitespace.induct)
  case (1 content pos)
  show ?case
  proof (cases "pos < length content \<and> isspace (content ! pos)")
    case True
    then have "drop pos content = content ! pos # drop (pos + 1) content"
      by (simp add: Cons_nth_drop_Suc)
    with True "1.IH" show ?thesis
      by (subst skip_whitespace.simps) (simp add: after_blank_def)
  next
    case False
    then have "takeWhile isspace (drop pos content) = []"
      by (cases "pos < length content") (auto simp: takeWhile_eq_Nil_iff hd_drop_conv_nth)
    with False show ?thesis
      by (subst skip_whitespace.simps) (auto simp: after_blank_def)
  qed
qed

lemma after_blank_ge: "i \<le> after_blank content i"
  by (simp add: after_blank_def)

lemma after_blank_not_space: "\<not> isspace (char_at content (after_blank content i))"
proof -
  let ?w = "takeWhile isspace (drop i content)"
  show ?thesis
  proof (cases "after_blank content i < length content")
    case True
    have "drop (after_blank content i) content = dropWhile isspace (drop i content)"
      by (simp add: after_blank_def dropWhile_eq_drop add.commute)
    moreover from True have "drop (after_blank content i) content \<noteq> []" by simp
    ultimately have "\<not> isspace (hd (drop (after_blank content i) content))"
      by (metis hd_dropWhile)
    with True show ?thesis by (simp add: char_at_def hd_drop_conv_nth)
  next
    case False
    then show ?thesis by (simp add: char_at_def isspace_def)
  qed
qed

lemma after_blank_stay: "\<not> isspace (char_at content i) \<Longrightarrow> after_blank content i = i"
  using skip_whitespace_stay[of content i] by (simp add: skip_whitespace_after_blank)

lemma recognised_escape_eq: "recognised_escape = escape_char"
  by (rule ext) (simp add: recognised_escape_def escape_char_def)

definition returned :: "'e + 'a \<Rightarrow> 'a option" where
  "returned r = (case r of Inl e \<Rightarrow> None | Inr x \<Rightarrow> Some x)"

lemma returned_simps [simp]: "returned (Inl e) = None" "returned (Inr x) = Some x"
  by (simp_all add: returned_def)

lemma returned_eq_Some: "returned r = Some x \<longleftrightarrow> r = Inr x"
  by (cases r) simp_all

lemma parse_string_loop_body:
  "returned (parse_string_loop content i acc) =
     map_option (\<lambda>(s, n). (acc @ s, i + n)) (string_body (drop i content))"
proof (induction content i acc rule: parse_string_loop.induct)
  case (1 content pos result)
  note IH1 = "1.IH"(1)[OF _ refl refl _ _ _ refl refl]
  note IH2 = "1.IH"(2)[OF _ refl refl]
  show ?case
  proof (cases "pos < length content")
    case False
    then show ?thesis by (subst parse_string_loop.simps) simp
  next
    case len: True
    then have d: "drop pos content = content ! pos # drop (pos + 1) content"
      by (simp add: Cons_nth_drop_Suc)
    show ?thesis
    proof (cases "content ! pos = CHR 0x22")
      case True
      with len d show ?thesis by (subst parse_string_loop.simps) simp
    next
      case nq: False
      show ?thesis
      proof (cases "content ! pos = CHR 0x5C")
        case False
        with nq len d IH2[OF len nq False] show ?thesis
          by (subst parse_string_loop.simps)
             (simp add: Let_def option.map_comp comp_def split: option.splits prod.splits)
      next
        case bs: True
        show ?thesis
        proof (cases "pos + 1 < length content")
          case False
          with len have "drop (pos + 1) content = []" by simp
          with bs nq len d False show ?thesis
            by (subst parse_string_loop.simps) (simp add: Let_def)
        next
          case l2: True
          then have d2: "drop (pos + 1) content = content ! (pos + 1) # drop (pos + 1 + 1) content"
            by (simp add: Cons_nth_drop_Suc)
          show ?thesis
          proof (cases "escape_char (content ! (pos + 1))")
            case None
            with bs nq len d d2 l2 show ?thesis
              by (subst parse_string_loop.simps) (simp add: Let_def recognised_escape_eq)
          next
            case (Some e)
            have l2': "\<not> length content \<le> pos + 1" using l2 by simp
            from bs nq len d d2 l2 Some IH1[OF len nq bs l2' Some] show ?thesis
              by (subst parse_string_loop.simps)
                 (simp add: Let_def recognised_escape_eq split: option.splits prod.splits)
          qed
        qed
      qed
    qed
  qed
qed

lemma parse_string_quoted: "returned (parse_string content p) = quoted_end content p"
  unfolding parse_string_def quoted_end_def
  by (simp add: parse_string_loop_body option.map_comp split: option.splits)

text \<open>
  \<open>ends_open content\<close>: the input ends with a comma, or its last character that is
  not white space is \<open>{\<close> or \<open>[\<close>.
\<close>

definition ends_open :: "string \<Rightarrow> bool" where
  "ends_open content =
     (content \<noteq> [] \<and>
      (last content = CHR '','' \<or>
       (case dropWhile isspace (rev content) of
          [] \<Rightarrow> False
        | c # cs \<Rightarrow> c = CHR ''{'' \<or> c = CHR ''['')))"

lemma ends_open_bracket:
  assumes "p < length content" "content ! p = CHR ''{'' \<or> content ! p = CHR ''[''"
    and "length content \<le> after_blank content (p + 1)"
  shows "ends_open content"
proof -
  have tw: "length (takeWhile isspace (drop (p + 1) content)) = length (drop (p + 1) content)"
    using assms(1,3) length_takeWhile_le[of isspace "drop (p + 1) content"]
    by (simp add: after_blank_def)
  then have "takeWhile isspace (drop (p + 1) content) = drop (p + 1) content"
    by (metis takeWhile_eq_take take_all order_refl)
  then have sp: "\<forall>x\<in>set (drop (p + 1) content). isspace x"
    by (metis set_takeWhileD)
  have c: "content = take p content @ content ! p # drop (p + 1) content"
    using assms(1) by (simp add: id_take_nth_drop)
  have ns: "\<not> isspace (content ! p)" using assms(2) by (auto simp: isspace_def)
  have "dropWhile isspace (rev content)
      = dropWhile isspace (rev (drop (p + 1) content) @ content ! p # rev (take p content))"
    by (subst c) simp
  also have "\<dots> = content ! p # rev (take p content)"
    using sp ns by (simp add: dropWhile_append3)
  finally show ?thesis using assms(1,2) by (auto simp: ends_open_def)
qed

lemma ends_open_comma:
  assumes "p < length content" "content ! p = CHR '',''" "length content \<le> p + 1"
  shows "ends_open content"
proof -
  from assms(1,3) have "p = length content - 1" by simp
  moreover from assms(1) have "content \<noteq> []" by auto
  ultimately have "last content = CHR '',''" using assms(2) by (simp add: last_conv_nth)
  with assms(1) show ?thesis by (auto simp: ends_open_def)
qed

lemma after_blank_le: "i \<le> length content \<Longrightarrow> after_blank content i \<le> length content"
  using length_takeWhile_le[of isspace "drop i content"] by (simp add: after_blank_def)

lemma literal_end_blank: "literal_end content (after_blank content i) l = literal_end content i l"
  by (cases l) (simp_all add: after_blank_idem)

lemma elements_end_blank: "elements_end content (after_blank content i) ls = elements_end content i ls"
  by (cases ls) (simp_all add: literal_end_blank)

lemma members_end_blank: "members_end content (after_blank content i) ms = members_end content i ms"
  by (cases ms) (simp_all add: after_blank_idem)

lemma parse_number_literal:
  assumes "parse_number fp content pos = Inr (v, q)"
  shows "q = number_end content pos"
    and "v = value_of fp (LNumber (substr content pos (q - pos)))"
  using assms
  by (auto simp: parse_number_eq Let_def floating_def split: if_splits option.splits)

text \<open>
  What the parser accepts is written in the grammar. When \<open>parse_value\<close> returns a value
  and a position, the text up to that position is a literal and the value is the value of
  the literal; or else the parser has left one of its two loops because the input ended
  right after \<open>{\<close>, \<open>[\<close> or a comma, which only the outermost array or object can do.
\<close>

lemma parse_sound:
  fixes fp :: "'d float_ops"
  shows "parse_value fp content pos = Inr (v, q) \<Longrightarrow>
           (\<exists>l. literal_end content pos l = Some q \<and> v = value_of fp l)
           \<or> (q = length content \<and> ends_open content)"
    and "parse_object fp content pos = Inr (v, q) \<Longrightarrow> char_at content pos = CHR ''{'' \<Longrightarrow>
           (\<exists>ms. literal_end content pos (LObject ms) = Some q \<and> v = value_of fp (LObject ms))
           \<or> (q = length content \<and> ends_open content)"
    and "parse_object_loop fp content pos obj = Inr (v, q) \<Longrightarrow>
           (length content \<le> pos \<longrightarrow> pos = length content \<and> ends_open content) \<Longrightarrow>
           (\<exists>ms. members_end content pos ms = Some q
               \<and> v = foldl (\<lambda>obj m. set_json (fst m) (value_of fp (snd m)) obj) obj ms)
           \<or> (q = length content \<and> ends_open content)"
    and "parse_array fp content pos = Inr (v, q) \<Longrightarrow> char_at content pos = CHR ''['' \<Longrightarrow>
           (\<exists>ls. literal_end content pos (LArray ls) = Some q \<and> v = value_of fp (LArray ls))
           \<or> (q = length content \<and> ends_open content)"
    and "parse_array_loop fp content pos arr = Inr (v, q) \<Longrightarrow>
           (length content \<le> pos \<longrightarrow> pos = length content \<and> ends_open content) \<Longrightarrow>
           (\<exists>ls. elements_end content pos ls = Some q
               \<and> v = foldl (\<lambda>arr l. push_back (value_of fp l) arr) arr ls)
           \<or> (q = length content \<and> ends_open content)"
proof (induction fp content pos and fp content pos and fp content pos obj and fp content pos
         and fp content pos arr arbitrary: v q and v q and v q and v q and v q
       rule: parse_value_parse_object_parse_object_loop_parse_array_parse_array_loop.induct)
  case (1 fp content pos0)
  define pos where "pos = skip_whitespace content pos0"
  have pb: "pos = after_blank content pos0" by (simp add: pos_def skip_whitespace_after_blank)
  from "1.prems" have len: "\<not> length content \<le> pos"
    by (subst (asm) parse_value.simps) (simp add: Let_def pos_def split: if_splits)
  then have ca: "char_at content pos = content ! pos" by (simp add: char_at_def)
  note IH1 = "1.IH"(1)[OF pos_def len refl]
  note IH2 = "1.IH"(2)[OF pos_def len refl]
  from "1.prems" len consider
      (obj) "content ! pos = CHR ''{''" "parse_object fp content pos = Inr (v, q)"
    | (arr) "content ! pos \<noteq> CHR ''{''" "content ! pos = CHR ''[''" "parse_array fp content pos = Inr (v, q)"
    | (str) s where "parse_string content pos = Inr (s, q)" "v = String s"
    | (true) "substr content pos 4 = ''true''" "v = Boolean True" "q = pos + 4"
    | (false) "substr content pos 5 = ''false''" "v = Boolean False" "q = pos + 5"
    | (null) "substr content pos 4 = ''null''" "v = Null" "q = pos + 4"
    | (num) "isdigit (content ! pos) \<or> content ! pos = CHR ''-''"
        "parse_number fp content pos = Inr (v, q)"
    by (subst (asm) parse_value.simps)
       (auto simp: Let_def pos_def[symmetric] split: if_splits sum.splits)
  then show ?case
  proof cases
    case obj
    have cp: "char_at content pos = CHR ''{''" using ca obj(1) by simp
    from IH1[OF obj(1) obj(2) cp] show ?thesis
    proof (elim disjE exE conjE)
      fix ms assume a: "literal_end content pos (LObject ms) = Some q" "v = value_of fp (LObject ms)"
      from a(1) have "literal_end content pos0 (LObject ms) = Some q"
        unfolding pb literal_end_blank .
      with a(2) show ?thesis by blast
    qed blast
  next
    case arr
    have cp: "char_at content pos = CHR ''[''" using ca arr(2) by simp
    from IH2[OF arr(1) arr(2) arr(3) cp] show ?thesis
    proof (elim disjE exE conjE)
      fix ls assume a: "literal_end content pos (LArray ls) = Some q" "v = value_of fp (LArray ls)"
      from a(1) have "literal_end content pos0 (LArray ls) = Some q"
        unfolding pb literal_end_blank .
      with a(2) show ?thesis by blast
    qed blast
  next
    case str
    then have "quoted_end content pos = Some (s, q)"
      by (simp add: parse_string_quoted[symmetric])
    then have "literal_end content pos0 (LString s) = Some q" by (simp add: pb)
    with str(2) show ?thesis by (intro disjI1 exI[of _ "LString s"]) simp
  next
    case true
    then show ?thesis by (intro disjI1 exI[of _ "LBool True"]) (simp add: pb)
  next
    case false
    then show ?thesis by (intro disjI1 exI[of _ "LBool False"]) (simp add: pb)
  next
    case null
    then show ?thesis by (intro disjI1 exI[of _ "LNull"]) (simp add: pb)
  next
    case num
    note pn = parse_number_literal[OF num(2)]
    show ?thesis
      using num(1) pn ca
      by (intro disjI1 exI[of _ "LNumber (substr content pos (q - pos))"]) (simp add: pb)
  qed
next
  case (2 fp content pos0)
  define pos where "pos = skip_whitespace content (pos0 + 1)"
  have pos': "skip_whitespace content (Suc pos0) = pos" by (simp add: pos_def)
  have pb: "pos = after_blank content (pos0 + 1)" by (simp add: pos_def skip_whitespace_after_blank)
  have pb': "after_blank content (Suc pos0) = pos" by (simp add: pb)
  have p0: "after_blank content pos0 = pos0" "pos0 < length content" "content ! pos0 = CHR ''{''"
    using "2.prems"(2) by (auto simp: after_blank_stay isspace_def char_at_def split: if_splits)
  note IH = "2.IH"[OF refl refl pos_def]
  from "2.prems"(1) consider
      (empty) "pos < length content" "content ! pos = CHR ''}''" "v = set_json [] Null Null" "q = pos + 1"
    | (loop) "\<not> (pos < length content \<and> content ! pos = CHR ''}'')"
        "parse_object_loop fp content pos (set_json [] Null Null) = Inr (v, q)"
    by (subst (asm) parse_object.simps)
       (auto simp: Let_def pos' split: if_splits)
  then show ?case
  proof cases
    case empty
    then show ?thesis
      using "2.prems"(2)
      by (intro disjI1 exI[of _ "[]"]) (simp add: p0 pb' char_at_def)
  next
    case loop
    have pre: "length content \<le> pos \<longrightarrow> pos = length content \<and> ends_open content"
      using ends_open_bracket[of pos0 content] after_blank_le[of "pos0 + 1" content] p0
      by (auto simp: pb)
    from IH[OF loop(1) loop(2) pre] show ?thesis
    proof
      assume "\<exists>ms. members_end content pos ms = Some q \<and>
         v = foldl (\<lambda>obj m. set_json (fst m) (value_of fp (snd m)) obj) (set_json [] Null Null) ms"
      then obtain ms where ms: "members_end content pos ms = Some q"
        "v = foldl (\<lambda>obj m. set_json (fst m) (value_of fp (snd m)) obj) (set_json [] Null Null) ms"
        by blast
      from ms(1) have ne: "ms \<noteq> []" by (cases ms) simp_all
      from ms(1) have "members_end content (pos0 + 1) ms = Some q"
        by (simp add: pb members_end_blank)
      with ne have "literal_end content pos0 (LObject ms) = Some q"
        using "2.prems"(2) by (simp add: p0)
      with ms(2) show ?thesis by (intro disjI1 exI[of _ ms]) simp
    qed simp
  qed
next
  case (3 fp content pos0 obj)
  show ?case
  proof (cases "pos0 < length content")
    case False
    with "3.prems" show ?thesis
      by (subst (asm) parse_object_loop.simps) simp
  next
    case True
    define pos1 where "pos1 = skip_whitespace content pos0"
    from "3.prems"(1) True obtain key pos2 where
      ps: "parse_string content pos1 = Inr (key, pos2)" and q: "\<not> char_at content pos1 \<noteq> CHR 0x22"
      by (subst (asm) parse_object_loop.simps)
         (auto simp: Let_def pos1_def[symmetric] split: if_splits sum.splits)
    define pos3 where "pos3 = skip_whitespace content pos2"
    define pos4 where "pos4 = skip_whitespace content (pos3 + 1)"
    have pos4': "skip_whitespace content (Suc pos3) = pos4" by (simp add: pos4_def)
    from "3.prems"(1) True ps q obtain w pos5 where
      pv: "parse_value fp content pos4 = Inr (w, pos5)"
      and c: "\<not> (length content \<le> pos3 \<or> content ! pos3 \<noteq> CHR '':'')"
      by (subst (asm) parse_object_loop.simps)
         (auto simp: Let_def pos1_def[symmetric] pos3_def[symmetric] pos4' split: if_splits sum.splits)
    define pos6 where "pos6 = skip_whitespace content pos5"
    from "3.prems"(1) True ps q c pv have in6: "\<not> length content \<le> pos6"
      by (subst (asm) parse_object_loop.simps)
         (auto simp: Let_def pos1_def[symmetric] pos3_def[symmetric] pos4' pos6_def[symmetric]
               split: if_splits)
    have "pos5 \<le> pos6" by (simp add: pos6_def skip_whitespace_ge)
    with in6 have "pos5 \<noteq> length content" by simp
    with "3.IH"(1)[OF True pos1_def q ps refl pos3_def c refl pos4_def pv]
    obtain l where l: "literal_end content pos4 l = Some pos5" "w = value_of fp l" by blast
    have qe: "quoted_end content (after_blank content pos0) = Some (key, pos2)"
      using ps by (simp add: parse_string_quoted[symmetric] pos1_def skip_whitespace_after_blank)
    have c3: "char_at content (after_blank content pos2) = CHR '':''"
      using c by (simp add: char_at_def pos3_def skip_whitespace_after_blank)
    have l4: "literal_end content (after_blank content pos2 + 1) l = Some pos5"
      using l(1) literal_end_blank[of content "pos3 + 1" l]
      by (simp add: pos4_def pos3_def skip_whitespace_after_blank)
    have ca6: "char_at content (after_blank content pos5) = content ! pos6"
      using in6 by (simp add: char_at_def pos6_def skip_whitespace_after_blank)
    from "3.prems"(1) True ps q c pv consider
        (close) "content ! pos6 = CHR ''}''" "v = set_json key w obj" "q = pos6 + 1"
      | (more) "\<not> length content \<le> pos6" "content ! pos6 \<noteq> CHR ''}''" "content ! pos6 = CHR '',''"
          "parse_object_loop fp content (pos6 + 1) (set_json key w obj) = Inr (v, q)"
      by (subst (asm) parse_object_loop.simps)
         (auto simp: Let_def pos1_def[symmetric] pos3_def[symmetric] pos4' pos6_def[symmetric]
               split: if_splits)
    then show ?thesis
    proof cases
      case close
      have "members_end content pos0 [(key, l)] = Some q"
        using qe c3 l4 ca6 close by (simp add: pos6_def skip_whitespace_after_blank)
      moreover have "v = foldl (\<lambda>obj m. set_json (fst m) (value_of fp (snd m)) obj) obj [(key, l)]"
        using close l(2) by simp
      ultimately show ?thesis by blast
    next
      case more
      have pre: "length content \<le> pos6 + 1 \<longrightarrow> pos6 + 1 = length content \<and> ends_open content"
        using ends_open_comma[of pos6 content] more(1,3) by auto
      from "3.IH"(2)[OF True pos1_def q ps refl pos3_def c refl pos4_def pv refl refl pos6_def
            more(1,2,3) more(4) pre]
      show ?thesis
      proof
        assume "\<exists>ms. members_end content (pos6 + 1) ms = Some q \<and>
           v = foldl (\<lambda>obj m. set_json (fst m) (value_of fp (snd m)) obj) (set_json key w obj) ms"
        then obtain ms where ms: "members_end content (pos6 + 1) ms = Some q"
          "v = foldl (\<lambda>obj m. set_json (fst m) (value_of fp (snd m)) obj) (set_json key w obj) ms"
          by blast
        from ms(1) have ne: "ms \<noteq> []" by (cases ms) simp_all
        have "members_end content pos0 ((key, l) # ms) = Some q"
          using qe c3 l4 ca6 more(3) ms(1) ne by (simp add: pos6_def skip_whitespace_after_blank)
        moreover have "v = foldl (\<lambda>obj m. set_json (fst m) (value_of fp (snd m)) obj) obj ((key, l) # ms)"
          using ms(2) l(2) by simp
        ultimately show ?thesis by blast
      qed simp
    qed
  qed
next
  case (4 fp content pos0)
  define pos where "pos = skip_whitespace content (pos0 + 1)"
  have pos': "skip_whitespace content (Suc pos0) = pos" by (simp add: pos_def)
  have pb: "pos = after_blank content (pos0 + 1)" by (simp add: pos_def skip_whitespace_after_blank)
  have pb': "after_blank content (Suc pos0) = pos" by (simp add: pb)
  have p0: "after_blank content pos0 = pos0" "pos0 < length content" "content ! pos0 = CHR ''[''"
    using "4.prems"(2) by (auto simp: after_blank_stay isspace_def char_at_def split: if_splits)
  note IH = "4.IH"[OF refl refl pos_def]
  from "4.prems"(1) consider
      (empty) "pos < length content" "content ! pos = CHR '']''" "v = Null" "q = pos + 1"
    | (loop) "\<not> (pos < length content \<and> content ! pos = CHR '']'')"
        "parse_array_loop fp content pos Null = Inr (v, q)"
    by (subst (asm) parse_array.simps)
       (auto simp: Let_def pos' split: if_splits)
  then show ?case
  proof cases
    case empty
    then show ?thesis
      using "4.prems"(2)
      by (intro disjI1 exI[of _ "[]"]) (simp add: p0 pb' char_at_def)
  next
    case loop
    have pre: "length content \<le> pos \<longrightarrow> pos = length content \<and> ends_open content"
      using ends_open_bracket[of pos0 content] after_blank_le[of "pos0 + 1" content] p0
      by (auto simp: pb)
    from IH[OF loop(1) loop(2) pre] show ?thesis
    proof
      assume "\<exists>ls. elements_end content pos ls = Some q \<and>
         v = foldl (\<lambda>arr l. push_back (value_of fp l) arr) Null ls"
      then obtain ls where ls: "elements_end content pos ls = Some q"
        "v = foldl (\<lambda>arr l. push_back (value_of fp l) arr) Null ls"
        by blast
      from ls(1) have ne: "ls \<noteq> []" by (cases ls) simp_all
      from ls(1) have "elements_end content (pos0 + 1) ls = Some q"
        by (simp add: pb elements_end_blank)
      with ne have "literal_end content pos0 (LArray ls) = Some q"
        using "4.prems"(2) by (simp add: p0)
      with ls(2) show ?thesis by (intro disjI1 exI[of _ ls]) simp
    qed simp
  qed
next
  case (5 fp content pos0 arr)
  show ?case
  proof (cases "pos0 < length content")
    case False
    with "5.prems" show ?thesis
      by (subst (asm) parse_array_loop.simps) simp
  next
    case True
    define pos1 where "pos1 = skip_whitespace content pos0"
    from "5.prems"(1) True obtain w pos5 where
      pv: "parse_value fp content pos1 = Inr (w, pos5)"
      by (subst (asm) parse_array_loop.simps)
         (auto simp: Let_def pos1_def[symmetric] split: if_splits sum.splits)
    define pos6 where "pos6 = skip_whitespace content pos5"
    from "5.prems"(1) True pv have in6: "\<not> length content \<le> pos6"
      by (subst (asm) parse_array_loop.simps)
         (auto simp: Let_def pos1_def[symmetric] pos6_def[symmetric] split: if_splits)
    have "pos5 \<le> pos6" by (simp add: pos6_def skip_whitespace_ge)
    with in6 have "pos5 \<noteq> length content" by simp
    with "5.IH"(1)[OF True pos1_def pv]
    obtain l where l: "literal_end content pos1 l = Some pos5" "w = value_of fp l" by blast
    have l1: "literal_end content pos0 l = Some pos5"
      using l(1) literal_end_blank[of content pos0 l]
      by (simp add: pos1_def skip_whitespace_after_blank)
    have ca6: "char_at content (after_blank content pos5) = content ! pos6"
      using in6 by (simp add: char_at_def pos6_def skip_whitespace_after_blank)
    from "5.prems"(1) True pv consider
        (close) "content ! pos6 = CHR '']''" "v = push_back w arr" "q = pos6 + 1"
      | (more) "\<not> length content \<le> pos6" "content ! pos6 \<noteq> CHR '']''" "content ! pos6 = CHR '',''"
          "parse_array_loop fp content (pos6 + 1) (push_back w arr) = Inr (v, q)"
      by (subst (asm) parse_array_loop.simps)
         (auto simp: Let_def pos1_def[symmetric] pos6_def[symmetric] split: if_splits)
    then show ?thesis
    proof cases
      case close
      have "elements_end content pos0 [l] = Some q"
        using l1 ca6 close by (simp add: pos6_def skip_whitespace_after_blank)
      moreover have "v = foldl (\<lambda>arr l. push_back (value_of fp l) arr) arr [l]"
        using close l(2) by simp
      ultimately show ?thesis by blast
    next
      case more
      have pre: "length content \<le> pos6 + 1 \<longrightarrow> pos6 + 1 = length content \<and> ends_open content"
        using ends_open_comma[of pos6 content] more(1,3) by auto
      from "5.IH"(2)[OF True pos1_def pv refl refl pos6_def more(1,2,3) more(4) pre]
      show ?thesis
      proof
        assume "\<exists>ls. elements_end content (pos6 + 1) ls = Some q \<and>
           v = foldl (\<lambda>arr l. push_back (value_of fp l) arr) (push_back w arr) ls"
        then obtain ls where ls: "elements_end content (pos6 + 1) ls = Some q"
          "v = foldl (\<lambda>arr l. push_back (value_of fp l) arr) (push_back w arr) ls"
          by blast
        from ls(1) have ne: "ls \<noteq> []" by (cases ls) simp_all
        have "elements_end content pos0 (l # ls) = Some q"
          using l1 ca6 more(3) ls(1) ne by (simp add: pos6_def skip_whitespace_after_blank)
        moreover have "v = foldl (\<lambda>arr l. push_back (value_of fp l) arr) arr (l # ls)"
          using ls(2) l(2) by simp
        ultimately show ?thesis by blast
      qed simp
    qed
  qed
qed

text \<open>
  \<open>first_bad fp l\<close>: the first number lexeme of the literal \<open>l\<close>, in the order written,
  on which the conversion throws.
\<close>

fun first_some :: "'a option list \<Rightarrow> 'a option" where
  "first_some [] = None"
| "first_some (None # xs) = first_some xs"
| "first_some (Some x # xs) = Some x"

fun first_bad :: "'d float_ops \<Rightarrow> literal \<Rightarrow> string option" where
  "first_bad fp (LNumber s) =
     (if floating s then (case stod fp s of None \<Rightarrow> Some s | Some d \<Rightarrow> None)
      else (case stoi s of None \<Rightarrow> Some s | Some i \<Rightarrow> None))"
| "first_bad fp (LArray ls) = first_some (map (first_bad fp) ls)"
| "first_bad fp (LObject ms) = first_some (map (\<lambda>m. first_bad fp (snd m)) ms)"
| "first_bad fp l = None"

definition outcome :: "string option \<Rightarrow> 'a \<Rightarrow> exception + 'a" where
  "outcome bad r =
     (case bad of None \<Rightarrow> Inr r | Some s \<Rightarrow> Inl (runtime_error (''Invalid number: '' @ s)))"

lemma substr_Cons:
  assumes "substr content p n = x # xs"
  shows "p < length content \<and> content ! p = x"
proof (cases "p < length content")
  case True
  then have "drop p content = content ! p # drop (Suc p) content"
    by (simp add: Cons_nth_drop_Suc)
  with assms True show ?thesis by (cases n) (simp_all add: substr_def)
next
  case False
  with assms show ?thesis by (simp add: substr_def)
qed

lemma char_at_lt: "char_at content p = c \<Longrightarrow> c \<noteq> CHR 0x00 \<Longrightarrow> p < length content \<and> content ! p = c"
  by (auto simp: char_at_def split: if_splits)

lemma literal_start:
  assumes "literal_end content i l = Some j"
  shows "after_blank content i < length content"
    and "content ! after_blank content i \<noteq> CHR '']''"
    and "content ! after_blank content i \<noteq> CHR ''}''"
proof -
  define p where "p = after_blank content i"
  have "p < length content \<and> content ! p \<noteq> CHR '']'' \<and> content ! p \<noteq> CHR ''}''"
  proof (cases l)
    case LNull
    with assms have "substr content p 4 = ''null''" by (simp add: p_def Let_def split: if_splits)
    from substr_Cons[OF this] show ?thesis by simp
  next
    case (LBool b)
    with assms have "substr content p 4 = ''true'' \<or> substr content p 5 = ''false''"
      by (simp add: p_def Let_def split: if_splits)
    then show ?thesis using substr_Cons[of content p 4] substr_Cons[of content p 5] by auto
  next
    case (LNumber s)
    with assms have "isdigit (char_at content p) \<or> char_at content p = CHR ''-''"
      by (simp add: p_def Let_def split: if_splits)
    then show ?thesis by (auto simp: char_at_def isdigit_def split: if_splits)
  next
    case (LString s)
    with assms have "char_at content p = CHR 0x22"
      by (auto simp: p_def quoted_end_def split: if_splits option.splits)
    from char_at_lt[OF this] show ?thesis by simp
  next
    case (LArray ls)
    with assms have "char_at content p = CHR ''[''"
      by (simp add: p_def Let_def split: if_splits)
    from char_at_lt[OF this] show ?thesis by simp
  next
    case (LObject ms)
    with assms have "char_at content p = CHR ''{''"
      by (simp add: p_def Let_def split: if_splits)
    from char_at_lt[OF this] show ?thesis by simp
  qed
  then show "after_blank content i < length content"
    and "content ! after_blank content i \<noteq> CHR '']''"
    and "content ! after_blank content i \<noteq> CHR ''}''"
    by (simp_all add: p_def)
qed

lemma parse_value_blank: "parse_value fp content (after_blank content i) = parse_value fp content i"
  by (simp add: parse_value.simps[of fp content i]
        parse_value.simps[of fp content "after_blank content i"]
        skip_whitespace_after_blank after_blank_idem)

lemma parse_array_loop_blank:
  "after_blank content i < length content \<Longrightarrow>
   parse_array_loop fp content (after_blank content i) arr = parse_array_loop fp content i arr"
  using after_blank_ge[of i content]
  by (simp add: parse_array_loop.simps[of fp content i]
        parse_array_loop.simps[of fp content "after_blank content i"]
        skip_whitespace_after_blank after_blank_idem)

lemma parse_object_loop_blank:
  "after_blank content i < length content \<Longrightarrow>
   parse_object_loop fp content (after_blank content i) obj = parse_object_loop fp content i obj"
  using after_blank_ge[of i content]
  by (simp add: parse_object_loop.simps[of fp content i]
        parse_object_loop.simps[of fp content "after_blank content i"]
        skip_whitespace_after_blank after_blank_idem)

lemma outcome_simps [simp]:
  "outcome None r = Inr r"
  "outcome (Some s) r = Inl (runtime_error (''Invalid number: '' @ s))"
  by (simp_all add: outcome_def)

lemma parse_value_at_literal:
  assumes "literal_end content i l = Some j"
  defines "p \<equiv> after_blank content i"
  shows "parse_value fp content i =
     (let c = content ! p in
         if c = CHR ''{'' then parse_object fp content p
         else if c = CHR ''['' then parse_array fp content p
         else if c = CHR 0x22 then
           (case parse_string content p of
              Inl e \<Rightarrow> Inl e
            | Inr (s, pos) \<Rightarrow> Inr (String s, pos))
         else if c = CHR ''t'' \<or> c = CHR ''f'' then
           (if substr content p 4 = ''true'' then Inr (Boolean True, p + 4)
            else if substr content p 5 = ''false'' then Inr (Boolean False, p + 5)
            else Inl (runtime_error ''Invalid boolean value''))
         else if c = CHR ''n'' then
           (if substr content p 4 = ''null'' then Inr (Null, p + 4)
            else Inl (runtime_error ''Invalid null value''))
         else if isdigit c \<or> c = CHR ''-'' then parse_number fp content p
         else Inl (runtime_error (''Unexpected character: '' @ [c])))"
proof -
  have lt: "p < length content" using literal_start(1)[OF assms(1)] by (simp add: p_def)
  have "\<not> isspace (char_at content p)" unfolding p_def by (rule after_blank_not_space)
  with lt have ns: "\<not> isspace (content ! p)" by (simp add: char_at_def)
  have "parse_value fp content i = parse_value fp content p"
    by (simp add: p_def parse_value_blank)
  also note parse_value_dispatch[OF lt ns]
  finally show ?thesis .
qed

text \<open>
  What is written in the grammar is parsed as written. On a text that is a literal the
  parser returns the value of the literal and the position after it, unless a number
  lexeme does not convert: then it throws \<open>Invalid number\<close> with the first such lexeme.
\<close>

lemma parse_complete:
  fixes fp :: "'d float_ops"
  shows "literal_end content i l = Some j \<Longrightarrow>
           parse_value fp content i = outcome (first_bad fp l) (value_of fp l, j)"
    and "elements_end content i ls = Some j \<Longrightarrow>
           parse_array_loop fp content i arr =
             outcome (first_some (map (first_bad fp) ls))
               (foldl (\<lambda>arr l. push_back (value_of fp l) arr) arr ls, j)"
    and "members_end content i ms = Some j \<Longrightarrow>
           parse_object_loop fp content i obj =
             outcome (first_some (map (\<lambda>m. first_bad fp (snd m)) ms))
               (foldl (\<lambda>obj m. set_json (fst m) (value_of fp (snd m)) obj) obj ms, j)"
proof (induction content i l and content i ls and content i ms
       arbitrary: j and j arr and j obj
       rule: literal_end_elements_end_members_end.induct)
  case (1 content i)
  define p where "p = after_blank content i"
  from "1.prems" have s: "substr content p 4 = ''null''" and j: "j = p + 4"
    by (simp_all add: p_def Let_def split: if_splits)
  from substr_Cons[OF s] have c: "content ! p = CHR ''n''" by simp
  show ?case
    by (subst parse_value_at_literal[OF "1.prems"]) (simp add: p_def[symmetric] c s j)
next
  case (2 content i b)
  define p where "p = after_blank content i"
  show ?case
  proof (cases b)
    case True
    with "2.prems" have s: "substr content p 4 = ''true''" and j: "j = p + 4"
      by (simp_all add: p_def Let_def split: if_splits)
    from substr_Cons[OF s] have c: "content ! p = CHR ''t''" by simp
    show ?thesis
      by (subst parse_value_at_literal[OF "2.prems"]) (simp add: p_def[symmetric] c s j True)
  next
    case False
    with "2.prems" have s: "substr content p 5 = ''false''" and j: "j = p + 5"
      by (simp_all add: p_def Let_def split: if_splits)
    from substr_Cons[OF s] have c: "content ! p = CHR ''f''" and lt: "p < length content" by simp_all
    have nt: "substr content p 4 \<noteq> ''true''"
    proof
      assume "substr content p 4 = ''true''"
      from substr_Cons[OF this] c show False by simp
    qed
    show ?thesis
      by (subst parse_value_at_literal[OF "2.prems"]) (simp add: p_def[symmetric] c s j nt False)
  qed
next
  case (3 content i s)
  define p where "p = after_blank content i"
  from "3.prems" have st: "isdigit (char_at content p) \<or> char_at content p = CHR ''-''"
    and s: "substr content p (number_end content p - p) = s" and j: "j = number_end content p"
    by (simp_all add: p_def Let_def split: if_splits)
  have lt: "p < length content" using literal_start(1)[OF "3.prems"] by (simp add: p_def)
  with st have st': "isdigit (content ! p) \<or> content ! p = CHR ''-''" by (simp add: char_at_def)
  note ns = number_start_not_other[OF st']
  show ?case
    using st'
    by (subst parse_value_at_literal[OF "3.prems"])
       (simp add: p_def[symmetric] ns parse_number_eq Let_def s j floating_def
             split: option.splits)
next
  case (4 content i s)
  define p where "p = after_blank content i"
  from "4.prems" have q: "quoted_end content p = Some (s, j)"
    by (auto simp: p_def split: option.splits if_splits)
  then have c: "char_at content p = CHR 0x22" by (simp add: quoted_end_def split: if_splits)
  from char_at_lt[OF c] have c': "content ! p = CHR 0x22" by simp
  from q have ps: "parse_string content p = Inr (s, j)"
    by (simp add: parse_string_quoted[symmetric] returned_eq_Some)
  show ?case
    by (subst parse_value_at_literal[OF "4.prems"]) (simp add: p_def[symmetric] c' ps)
next
  case (5 content i ls)
  define p where "p = after_blank content i"
  from "5.prems" have c: "char_at content p = CHR ''[''"
    by (simp add: p_def Let_def split: if_splits)
  from char_at_lt[OF c] have c': "content ! p = CHR ''[''" and lt: "p < length content" by simp_all
  define q where "q = after_blank content (p + 1)"
  have q': "skip_whitespace content (Suc p) = q" by (simp add: q_def skip_whitespace_after_blank)
  have pv: "parse_value fp content i = parse_array fp content p"
    by (subst parse_value_at_literal[OF "5.prems"]) (simp add: p_def[symmetric] c')
  show ?case
  proof (cases "ls = []")
    case True
    with "5.prems" c have e: "char_at content q = CHR '']''" and j: "j = q + 1"
      by (simp_all add: p_def[symmetric] q_def Let_def split: if_splits)
    from char_at_lt[OF e] show ?thesis
      unfolding pv by (subst parse_array.simps) (simp add: Let_def q' j True)
  next
    case False
    with "5.prems" c have ee: "elements_end content (p + 1) ls = Some j"
      by (simp add: p_def[symmetric] Let_def split: if_splits)
    from False obtain l ls' where ls: "ls = l # ls'" by (cases ls) auto
    from ee obtain j' where le: "literal_end content (p + 1) l = Some j'"
      by (auto simp: ls split: option.splits)
    note s = literal_start[OF le, folded q_def]
    have "parse_array fp content p = parse_array_loop fp content q Null"
      by (subst parse_array.simps) (simp add: Let_def q' s)
    also have "\<dots> = parse_array_loop fp content (p + 1) Null"
      unfolding q_def using s(1) by (intro parse_array_loop_blank) (simp add: q_def)
    also note "5.IH"[OF p_def _ False ee, of Null]
    finally show ?thesis using c by (simp add: pv)
  qed
next
  case (6 content i ms)
  define p where "p = after_blank content i"
  from "6.prems" have c: "char_at content p = CHR ''{''"
    by (simp add: p_def Let_def split: if_splits)
  from char_at_lt[OF c] have c': "content ! p = CHR ''{''" and lt: "p < length content" by simp_all
  define q where "q = after_blank content (p + 1)"
  have q': "skip_whitespace content (Suc p) = q" by (simp add: q_def skip_whitespace_after_blank)
  have pv: "parse_value fp content i = parse_object fp content p"
    by (subst parse_value_at_literal[OF "6.prems"]) (simp add: p_def[symmetric] c')
  show ?case
  proof (cases "ms = []")
    case True
    with "6.prems" c have e: "char_at content q = CHR ''}''" and j: "j = q + 1"
      by (simp_all add: p_def[symmetric] q_def Let_def split: if_splits)
    from char_at_lt[OF e] show ?thesis
      unfolding pv by (subst parse_object.simps) (simp add: Let_def q' j True)
  next
    case False
    with "6.prems" c have ee: "members_end content (p + 1) ms = Some j"
      by (simp add: p_def[symmetric] Let_def split: if_splits)
    from False obtain m ms' where ms: "ms = m # ms'" by (cases ms) auto
    from ee have "quoted_end content q \<noteq> None"
      by (auto simp: ms q_def split: option.splits)
    then have "char_at content q = CHR 0x22" by (simp add: quoted_end_def split: if_splits)
    from char_at_lt[OF this] have s: "q < length content" "content ! q = CHR 0x22" by simp_all
    have "parse_object fp content p = parse_object_loop fp content q (set_json [] Null Null)"
      by (subst parse_object.simps) (simp add: Let_def q' s)
    also have "\<dots> = parse_object_loop fp content (p + 1) (set_json [] Null Null)"
      unfolding q_def using s(1) by (intro parse_object_loop_blank) (simp add: q_def)
    also note "6.IH"[OF p_def _ False ee, of "set_json [] Null Null"]
    finally show ?thesis using c by (simp add: pv)
  qed
next
  case (7 content i)
  then show ?case by simp
next
  case (8 content i l ls)
  from "8.prems" obtain p where le: "literal_end content i l = Some p"
    by (auto split: option.splits)
  define q where "q = after_blank content p"
  have q': "skip_whitespace content p = q" by (simp add: q_def skip_whitespace_after_blank)
  note s = literal_start[OF le]
  have lt: "i < length content" using s(1) after_blank_ge[of i content] by simp
  have pv: "parse_value fp content (skip_whitespace content i)
      = outcome (first_bad fp l) (value_of fp l, p)"
    using "8.IH"(1)[OF le] by (simp add: skip_whitespace_after_blank parse_value_blank)
  show ?case
  proof (cases "first_bad fp l")
    case (Some bad)
    then show ?thesis
      using lt pv by (subst parse_array_loop.simps) (simp add: Let_def)
  next
    case None
    show ?thesis
    proof (cases "ls = []")
      case True
      with "8.prems" le have e: "char_at content q = CHR '']''" and j: "j = q + 1"
        by (simp_all add: q_def Let_def split: if_splits)
      from char_at_lt[OF e] show ?thesis
        using lt pv None True j
        by (subst parse_array_loop.simps) (simp add: Let_def q')
    next
      case False
      with "8.prems" le have e: "char_at content q = CHR '',''"
        and ee: "elements_end content (q + 1) ls = Some j"
        by (simp_all add: q_def Let_def split: if_splits)
      from char_at_lt[OF e] have cq: "q < length content" "content ! q = CHR '',''" by simp_all
      have "parse_array_loop fp content i arr
          = parse_array_loop fp content (q + 1) (push_back (value_of fp l) arr)"
        using lt pv None cq
        by (subst parse_array_loop.simps) (simp add: Let_def q')
      also note "8.IH"(2)[OF le q_def False e ee, of "push_back (value_of fp l) arr"]
      finally show ?thesis using None by simp
    qed
  qed
next
  case (9 content i)
  then show ?case by simp
next
  case (10 content i m ms)
  define p0 where "p0 = after_blank content i"
  from "10.prems" obtain key p1 where qe: "quoted_end content p0 = Some (key, p1)"
    by (auto simp: p0_def split: option.splits)
  define p2 where "p2 = after_blank content p1"
  from "10.prems" qe have k: "key = fst m" and c2: "char_at content p2 = CHR '':''"
    by (auto simp: p0_def[symmetric] p2_def Let_def split: option.splits if_splits)
  from "10.prems" qe k c2 obtain p3 where le: "literal_end content (p2 + 1) (snd m) = Some p3"
    by (auto simp: p0_def[symmetric] p2_def[symmetric] Let_def split: option.splits if_splits)
  define p4 where "p4 = after_blank content p3"
  have c0: "char_at content p0 = CHR 0x22" using qe by (simp add: quoted_end_def split: if_splits)
  from char_at_lt[OF c0] have lt0: "p0 < length content" by simp
  then have lt: "i < length content" using after_blank_ge[of i content] by (simp add: p0_def)
  have ps: "parse_string content p0 = Inr (fst m, p1)"
    using qe k by (simp add: parse_string_quoted[symmetric] returned_eq_Some)
  from char_at_lt[OF c2] have cl: "p2 < length content" "content ! p2 = CHR '':''" by simp_all
  have nc: "\<not> (length content \<le> p2 \<or> content ! p2 \<noteq> CHR '':'')" using cl by simp
  have sk: "skip_whitespace content i = p0" "skip_whitespace content p1 = p2"
    "skip_whitespace content p3 = p4"
    by (simp_all add: skip_whitespace_after_blank p0_def p2_def p4_def)
  have pv: "parse_value fp content (skip_whitespace content (Suc p2))
      = outcome (first_bad fp (snd m)) (value_of fp (snd m), p3)"
    using "10.IH"(1)[OF qe[unfolded p0_def] refl p2_def _ le] k c2
    by (simp add: skip_whitespace_after_blank parse_value_blank)
  show ?case
  proof (cases "first_bad fp (snd m)")
    case (Some bad)
    then show ?thesis
      using lt pv ps c0 nc
      by (subst parse_object_loop.simps) (simp add: Let_def sk)
  next
    case None
    show ?thesis
    proof (cases "ms = []")
      case True
      with "10.prems" qe k c2 le have e: "char_at content p4 = CHR ''}''" and j: "j = p4 + 1"
        by (simp_all add: p0_def[symmetric] p2_def[symmetric] p4_def Let_def split: if_splits)
      from char_at_lt[OF e] show ?thesis
        using lt pv ps c0 nc None True j
        by (subst parse_object_loop.simps) (simp add: Let_def sk)
    next
      case False
      with "10.prems" qe k c2 le have e: "char_at content p4 = CHR '',''"
        and ee: "members_end content (p4 + 1) ms = Some j"
        by (simp_all add: p0_def[symmetric] p2_def[symmetric] p4_def Let_def split: if_splits)
      from char_at_lt[OF e] have cq: "p4 < length content" "content ! p4 = CHR '',''" by simp_all
      have "parse_object_loop fp content i obj
          = parse_object_loop fp content (p4 + 1) (set_json (fst m) (value_of fp (snd m)) obj)"
        using lt pv ps c0 nc None cq
        by (subst parse_object_loop.simps) (simp add: Let_def sk)
      also note "10.IH"(2)[OF qe[unfolded p0_def] refl p2_def _ le p4_def False e ee,
          of "set_json (fst m) (value_of fp (snd m)) obj"]
      finally show ?thesis using None k c2 by simp
    qed
  qed
qed

section \<open>The compact output\<close>

text \<open>
  The compact form of a value, written out: the text of a scalar, a string between two
  double quotes as it is stored, and for an array or an object the texts of the children
  with a comma between two of them and, in an object, the key in double quotes, a colon
  and one space before each value. Nothing else is written: no newline, no indentation,
  no space before or after a comma or a bracket.
\<close>

fun separated :: "string \<Rightarrow> string list \<Rightarrow> string" where
  "separated sep [] = []"
| "separated sep [x] = x"
| "separated sep (x # y # zs) = x @ sep @ separated sep (y # zs)"

fun compact_form :: "'d float_ops \<Rightarrow> 'd JSONValue \<Rightarrow> string" where
  "compact_form fp Null = ''null''"
| "compact_form fp (Boolean b) = (if b then ''true'' else ''false'')"
| "compact_form fp (Integer i) = to_string_int i"
| "compact_form fp (Number d) = to_string_double fp d"
| "compact_form fp (String s) = [CHR 0x22] @ s @ [CHR 0x22]"
| "compact_form fp (Array xs) = ''['' @ separated '','' (map (compact_form fp) xs) @ '']''"
| "compact_form fp (Object m) =
     ''{'' @ separated '',''
              (map (\<lambda>kv. [CHR 0x22] @ fst kv @ [CHR 0x22] @ '': '' @ compact_form fp (snd kv)) m)
     @ ''}''"

text \<open>A \<open>std::map\<close> holds every key once: \<open>distinct_keys\<close> says so of every Object of a tree.\<close>

fun distinct_keys :: "'d JSONValue \<Rightarrow> bool" where
  "distinct_keys (Object m) = (distinct (map fst m) \<and> (\<forall>kv\<in>set m. distinct_keys (snd kv)))"
| "distinct_keys (Array xs) = (\<forall>x\<in>set xs. distinct_keys x)"
| "distinct_keys v = True"

lemma emit_separated: "emit True sep xs = separated sep xs"
proof -
  have "emit False sep xs = concat (map (\<lambda>x. sep @ x) xs)" for xs
    by (induction xs) auto
  moreover have "separated sep (x # xs) = x @ concat (map (\<lambda>x. sep @ x) xs)" for x xs
    by (induction xs arbitrary: x) auto
  ultimately show ?thesis by (cases xs) auto
qed

lemma compact_text_form: "distinct_keys v \<Longrightarrow> compact_text fp v = compact_form fp v"
proof (induction v)
  case (Array xs)
  then have eq: "map (compact_text fp) xs = map (compact_form fp) xs" by (intro map_cong) auto
  show ?case unfolding compact_text_Array emit_separated eq by simp
next
  case (Object m)
  have "compact_text fp (snd kv) = compact_form fp (snd kv)" if "kv \<in> set m" for kv
    using Object.IH[of kv "snd kv"] Object.prems that by (cases kv) auto
  then have eq: "map (\<lambda>kv. [CHR 0x22] @ fst kv @ [CHR 0x22] @ '': '' @ compact_text fp (snd kv)) m
      = map (\<lambda>kv. [CHR 0x22] @ fst kv @ [CHR 0x22] @ '': '' @ compact_form fp (snd kv)) m"
    by (intro map_cong) auto
  from Object.prems have d: "distinct (map fst m)" by simp
  show ?case unfolding compact_text_Object[OF d] emit_separated eq by simp
qed (simp_all add: compact_text_scalar)

text \<open>
  C9, as amended. Without pretty-printing \<open>to_string\<close> returns the compact form of the
  root: the only characters it adds to the texts of the scalars, the strings and the keys
  are the brackets, the double quotes, the commas and, after the key of every object
  member, a colon followed by one space. It writes no newline and no other white space
  of its own; the characters of a string or a key, a newline among them, are written as
  they are.
\<close>

theorem compact_output_form:
  "distinct_keys (root r) \<longrightarrow> to_string fp r False = compact_form fp (root r)"
  by (simp add: to_string_compact compact_text_form)

theorem compact_output_form_witness:
  "distinct_keys (Object [(''a'', String ''x y''), (''b'', Array [Integer 1, Null])] :: rat JSONValue)
   \<and> to_string exact_ops
        \<lparr>success = True, error_message = [],
         root = Object [(''a'', String ''x y''), (''b'', Array [Integer 1, Null])]\<rparr> False
      = ''{\"a\": \"x y\",\"b\": [1,null]}''"
proof -
  let ?v = "Object [(''a'', String ''x y''), (''b'', Array [Integer 1, Null])] :: rat JSONValue"
  let ?r = "\<lparr>success = True, error_message = [], root = ?v\<rparr>"
  have d: "distinct_keys (root ?r)" by simp
  have i: "to_string_int 1 = ''1''" by code_simp
  from compact_output_form[of ?r exact_ops] d show ?thesis
    by (simp add: i)
qed

text \<open>
  C9 as stated fails. The compact output of the parsed \<open>{"a":1}\<close> has a space after
  each colon, outside every string and key; and the compact output of the parsed string
  \<open>"a\nb"\<close> (a backslash and \<open>n\<close> in the input, a newline in the value) has a newline
  character.
\<close>

theorem compact_space_counterexample:
  \<open>to_string exact_ops (parse exact_ops ''{"a":1}'') False = ''{"": null,"a": 1}''
   \<and> to_string exact_ops
         (parse exact_ops [CHR 0x22, CHR ''a'', CHR 0x5C, CHR ''n'', CHR ''b'', CHR 0x22]) False
       = [CHR 0x22, CHR ''a'', CHR 0x0A, CHR ''b'', CHR 0x22]\<close>
  by code_simp

section \<open>Number lexemes\<close>


text \<open>The result of \<open>parse\<close> on an input that starts with a literal.\<close>

lemma parse_of_reading:
  assumes "literal_end content 0 l = Some j"
  shows "parse fp content =
     (case first_bad fp l of
        None \<Rightarrow> \<lparr>success = True, error_message = [], root = value_of fp l\<rparr>
      | Some s \<Rightarrow> \<lparr>success = False, error_message = ''Invalid number: '' @ s, root = Null\<rparr>)"
proof -
  have "parse_value fp content (skip_whitespace content 0)
      = outcome (first_bad fp l) (value_of fp l, j)"
    using parse_complete(1)[OF assms, of fp]
    by (simp add: skip_whitespace_after_blank parse_value_blank)
  then show ?thesis
    by (cases "first_bad fp l") (simp_all add: parse_def JSONResult_default_def Let_def)
qed




section \<open>The value of a literal\<close>

declare value_of.simps(5,6) [simp del]

lemma foldl_push_back:
  "foldl (\<lambda>arr l. push_back (f l) arr) (Array xs) ls = Array (xs @ map f ls)"
  by (induction ls arbitrary: xs) simp_all

lemma value_of_Array:
  "value_of fp (LArray ls) = (if ls = [] then Null else Array (map (value_of fp) ls))"
  by (cases ls) (simp_all add: value_of.simps foldl_push_back)

lemma foldl_set_json_members:
  "foldl (\<lambda>obj kv. set_json (fst kv) (snd kv) obj) (Object m) kvs = Object m' \<Longrightarrow>
     set m' \<subseteq> set m \<union> set kvs"
proof (induction kvs arbitrary: m)
  case Nil
  then show ?case by simp
next
  case (Cons kv kvs)
  from Cons.prems have "foldl (\<lambda>obj kv. set_json (fst kv) (snd kv) obj)
      (Object (map_assign (fst kv) (snd kv) m)) kvs = Object m'" by simp
  from Cons.IH[OF this] set_map_assign[of "fst kv" "snd kv" m] show ?case by auto
qed

lemma value_of_Object:
  "\<exists>m'. value_of fp (LObject ms) = Object m'
      \<and> map_of m' = map_of [([], Null)] ++ (map_option (value_of fp) \<circ> map_of (rev ms))
      \<and> set (map fst m') = insert [] (set (map fst ms))
      \<and> set m' \<subseteq> insert ([], Null) ((\<lambda>m. (fst m, value_of fp (snd m))) ` set ms)"
proof -
  let ?kvs = "map (\<lambda>m. (fst m, value_of fp (snd m))) ms"
  have f: "value_of fp (LObject ms)
      = foldl (\<lambda>obj kv. set_json (fst kv) (snd kv) obj) (Object [([], Null)]) ?kvs"
    by (simp add: value_of.simps foldl_map)
  from foldl_set_json[of "[([], Null)]" ?kvs] obtain m' where
    m': "foldl (\<lambda>obj kv. set_json (fst kv) (snd kv) obj) (Object [([], Null)]) ?kvs = Object m'"
      "map_of m' = map_of [([], Null)] ++ map_of (rev ?kvs)"
      "set (map fst m') = set (map fst [([], Null :: 'a JSONValue)]) \<union> set (map fst ?kvs)"
    by blast
  have "rev ?kvs = map (\<lambda>(k, l). (k, value_of fp l)) (rev ms)"
    by (simp add: rev_map case_prod_unfold)
  then have 1: "map_of (rev ?kvs) = map_option (value_of fp) \<circ> map_of (rev ms)"
    by (simp add: map_of_map)
  have 2: "set (map fst m') = insert [] (set (map fst ms))"
    unfolding m'(3) by (simp add: o_def)
  have 3: "set m' \<subseteq> insert ([], Null) ((\<lambda>m. (fst m, value_of fp (snd m))) ` set ms)"
    using foldl_set_json_members[OF m'(1)] by auto
  from f m'(1) m'(2) 1 2 3 show ?thesis by simp
qed


lemma keys_value_of_Object:
  "set (get_keys_value (value_of fp (LObject ms))) = insert [] (set (map fst ms))"
proof -
  from value_of_Object[of fp ms] obtain m' where m': "value_of fp (LObject ms) = Object m'"
    "set (map fst m') = insert [] (set (map fst ms))"
    by blast
  show ?thesis unfolding m'(1) using m'(2) by simp
qed



lemma first_some_None: "first_some xs = None \<longleftrightarrow> (\<forall>x\<in>set xs. x = None)"
  by (induction xs rule: first_some.induct) auto

lemma value_of_Null:
  assumes "first_bad fp l = None"
  shows "value_of fp l = Null \<longleftrightarrow> l = LNull \<or> l = LArray []"
proof (cases l)
  case (LNumber s)
  with assms show ?thesis by (auto split: if_splits option.splits)
next
  case (LArray ls)
  then show ?thesis by (simp add: value_of_Array)
next
  case (LObject ms)
  with value_of_Object[of fp ms] show ?thesis by auto
qed simp_all


section \<open>The empty key of parsed objects\<close>





section \<open>Object literals and their keys\<close>

text \<open>
  C2, as amended. When the input starts with an object literal and is parsed
  successfully, \<open>get_keys("")\<close> returns every key written in the literal and, apart from
  the key \<open>""\<close>, no other; \<open>has_path("")\<close> is true; and for a written key that is not
  empty and has no dot, \<open>has_path\<close> is false when the value written for it (the last one,
  when the key is written twice) is \<open>null\<close>, and true when it is neither \<open>null\<close> nor an
  empty array.
\<close>

theorem object_literal_keys:
  "literal_end content 0 (LObject ms) = Some j \<and> success (parse fp content) \<longrightarrow>
     set (map fst ms) \<subseteq> set (get_keys (parse fp content) [])
     \<and> set (get_keys (parse fp content) []) \<subseteq> insert [] (set (map fst ms))
     \<and> has_path (parse fp content) []
     \<and> (\<forall>k\<in>set (map fst ms). k \<noteq> [] \<and> CHR ''.'' \<notin> set k \<longrightarrow>
           (map_of (rev ms) k = Some LNull \<longrightarrow> \<not> has_path (parse fp content) k)
           \<and> (map_of (rev ms) k \<noteq> Some LNull \<and> map_of (rev ms) k \<noteq> Some (LArray []) \<longrightarrow>
                has_path (parse fp content) k))"
proof (intro impI, elim conjE)
  assume r: "literal_end content 0 (LObject ms) = Some j" and s: "success (parse fp content)"
  from parse_of_reading[OF r, of fp] s
  have fb: "first_bad fp (LObject ms) = None"
    and p: "parse fp content = \<lparr>success = True, error_message = [], root = value_of fp (LObject ms)\<rparr>"
    by (cases "first_bad fp (LObject ms)"; simp)+
  from value_of_Object[of fp ms] obtain m' where m': "value_of fp (LObject ms) = Object m'"
    "map_of m' = map_of [([], Null)] ++ (map_option (value_of fp) \<circ> map_of (rev ms))"
    "set (map fst m') = insert [] (set (map fst ms))"
    by blast
  have keys: "get_keys (parse fp content) [] = map fst m'"
    by (simp add: p m'(1) get_keys_def get_value_def)
  have root: "has_path (parse fp content) []"
    by (simp add: p m'(1) has_path_def get_value_def)
  have hp: "(map_of (rev ms) k = Some LNull \<longrightarrow> \<not> has_path (parse fp content) k)
           \<and> (map_of (rev ms) k \<noteq> Some LNull \<and> map_of (rev ms) k \<noteq> Some (LArray []) \<longrightarrow>
                has_path (parse fp content) k)"
    if k: "k \<in> set (map fst ms)" "k \<noteq> []" "CHR ''.'' \<notin> set k" for k
  proof -
    from k(1) obtain l where l: "map_of (rev ms) k = Some l"
      by (cases "map_of (rev ms) k") (auto simp: map_of_eq_None_iff)
    then have "(k, l) \<in> set ms" by (auto dest: map_of_SomeD)
    then have "first_bad fp l = None"
      using fb by (auto simp: first_some_None)
    note n = value_of_Null[OF this]
    have "map_of m' k = Some (value_of fp l)" using k(2) l by (simp add: m'(2) map_add_def)
    then have "has_path (parse fp content) k \<longleftrightarrow> value_of fp l \<noteq> Null"
      by (cases "value_of fp l") (simp_all add: has_path_def p m'(1) get_value_simple_key[OF k(2,3)])
    with n l show ?thesis by simp
  qed
  show "set (map fst ms) \<subseteq> set (get_keys (parse fp content) [])
     \<and> set (get_keys (parse fp content) []) \<subseteq> insert [] (set (map fst ms))
     \<and> has_path (parse fp content) []
     \<and> (\<forall>k\<in>set (map fst ms). k \<noteq> [] \<and> CHR ''.'' \<notin> set k \<longrightarrow>
           (map_of (rev ms) k = Some LNull \<longrightarrow> \<not> has_path (parse fp content) k)
           \<and> (map_of (rev ms) k \<noteq> Some LNull \<and> map_of (rev ms) k \<noteq> Some (LArray []) \<longrightarrow>
                has_path (parse fp content) k))"
    unfolding keys m'(3) using hp root by blast
qed

theorem object_literal_keys_witness:
  \<open>literal_end ''{"a":1, "b" : null}'' 0 (LObject [(''a'', LNumber ''1''), (''b'', LNull)]) = Some 19
   \<and> success (parse exact_ops ''{"a":1, "b" : null}'')
   \<and> {''a'', ''b''} \<subseteq> set (get_keys (parse exact_ops ''{"a":1, "b" : null}'') [])
   \<and> set (get_keys (parse exact_ops ''{"a":1, "b" : null}'') []) \<subseteq> {[], ''a'', ''b''}
   \<and> has_path (parse exact_ops ''{"a":1, "b" : null}'') ''a''
   \<and> \<not> has_path (parse exact_ops ''{"a":1, "b" : null}'') ''b''\<close>
proof -
  have r: \<open>literal_end ''{"a":1, "b" : null}'' 0 (LObject [(''a'', LNumber ''1''), (''b'', LNull)]) = Some 19\<close>
    by code_simp
  have s: \<open>success (parse exact_ops ''{"a":1, "b" : null}'')\<close>
    by (simp add: parse_eval stoi_def decimal_value_def digit_value_def
          split del: if_split cong: eval_cong)
  from object_literal_keys[of \<open>''{"a":1, "b" : null}''\<close> "[(''a'', LNumber ''1''), (''b'', LNull)]" 19 exact_ops]
    r s
  show ?thesis by simp
qed

text \<open>
  C2 as stated fails: for the literal \<open>{"a":null}\<close> the key \<open>a\<close> is written and
  \<open>has_path("a")\<close> is false, and \<open>get_keys("")\<close> returns \<open>""\<close> besides \<open>a\<close>; for the literal
  \<open>{"a.b":1}\<close> the key \<open>a.b\<close> is written and \<open>has_path("a.b")\<close> is false, the path being
  split at the dot.
\<close>

theorem object_keys_counterexample:
  \<open>literal_end ''{"a":null}'' 0 (LObject [(''a'', LNull)]) = Some 10
   \<and> success (parse exact_ops ''{"a":null}'')
   \<and> get_keys (parse exact_ops ''{"a":null}'') [] = [[], ''a'']
   \<and> \<not> has_path (parse exact_ops ''{"a":null}'') ''a''
   \<and> literal_end ''{"a.b":1}'' 0 (LObject [(''a.b'', LNumber ''1'')]) = Some 9
   \<and> success (parse exact_ops ''{"a.b":1}'')
   \<and> \<not> has_path (parse exact_ops ''{"a.b":1}'') ''a.b''\<close>
  by code_simp

text \<open>
  An empty array is parsed to a Null value (\<open>parse_array\<close> returns its default-constructed
  value when no element was pushed), so the path of a member written with the value
  \<open>[]\<close> is not found either.
\<close>

lemma empty_array_member:
  \<open>parse fp ''{"a":[]}'' = \<lparr>success = True, error_message = [], root = Object [([], Null), (''a'', Null)]\<rparr>
   \<and> \<not> has_path (parse fp ''{"a":[]}'') ''a''\<close>
proof -
  have p: \<open>parse fp ''{"a":[]}'' = \<lparr>success = True, error_message = [], root = Object [([], Null), (''a'', Null)]\<rparr>\<close>
    by (simp add: parse_eval split del: if_split cong: eval_cong)
  show ?thesis
    unfolding p by (simp add: has_path_def path_eval split del: if_split cong: eval_cong)
qed

end
